theory Spec2Isabelle
  imports Complex_Main
begin

section \<open>Memory reads\<close>

text \<open>
  The C sources keep every grid as a flat array addressed by \<open>y * width + x\<close>.
  C integers are modelled as \<open>int\<close>; the model covers the executions without signed
  overflow. An array access outside the buffer is undefined behaviour in C; the model
  makes it the outcome \<open>OutOfBounds\<close>.
\<close>

datatype 'a outcome = Return 'a | OutOfBounds

definition read_at :: "'a list \<Rightarrow> int \<Rightarrow> 'a option" where
  "read_at buf i = (if 0 \<le> i \<and> i < int (length buf) then Some (buf ! nat i) else None)"

section \<open>Lesson 13: the collision system\<close>

datatype CollisionType =
  COLLISION_NONE | COLLISION_SOLID | COLLISION_TRIGGER | COLLISION_DAMAGE | COLLISION_SLOW

text \<open>
  \<open>CollisionRule\<close>: the \<open>speedModifier\<close> field is a float that no function of the
  collision system reads; it is kept as a rational.
\<close>

record CollisionRule =
  tile :: char
  type :: CollisionType
  damage :: int
  speedModifier :: rat

record LayeredMap =
  visual :: "char list"
  collision :: "char list"
  width :: int
  height :: int

record Entity =
  x :: int
  y :: int
  symbol :: char
  isSolid :: bool
  isAlive :: bool
  id :: int

definition defaultRules :: "CollisionRule list" where
  "defaultRules =
    [\<lparr>tile = CHR ''#'', type = COLLISION_SOLID, damage = 0, speedModifier = 1\<rparr>,
     \<lparr>tile = CHR ''~'', type = COLLISION_SLOW, damage = 0, speedModifier = 1 / 2\<rparr>,
     \<lparr>tile = CHR ''^'', type = COLLISION_DAMAGE, damage = 10, speedModifier = 1\<rparr>,
     \<lparr>tile = CHR ''+'', type = COLLISION_SOLID, damage = 0, speedModifier = 1\<rparr>,
     \<lparr>tile = CHR ''='', type = COLLISION_TRIGGER, damage = 0, speedModifier = 1\<rparr>]"

text \<open>
  \<open>CanMoveTo\<close> of lesson 13: the bounds check, then the loop over the rules, which
  returns false at the first rule that names the tile and is SOLID.
\<close>

fun rules_block :: "CollisionRule list \<Rightarrow> char \<Rightarrow> bool" where
  "rules_block [] c = False"
| "rules_block (r # rs) c =
     (if tile r = c \<and> type r = COLLISION_SOLID then True else rules_block rs c)"

definition CanMoveTo :: "LayeredMap \<Rightarrow> int \<Rightarrow> int \<Rightarrow> CollisionRule list \<Rightarrow> bool outcome" where
  "CanMoveTo m px py rules =
     (if px < 0 \<or> px \<ge> width m \<or> py < 0 \<or> py \<ge> height m then Return False
      else case read_at (collision m) (py * width m + px) of
             None \<Rightarrow> OutOfBounds
           | Some collisionTile \<Rightarrow>
               if rules_block rules collisionTile then Return False else Return True)"

text \<open>
  \<open>GetEntityAt\<close> walks the linked list (here a list, in link order) and returns the
  first live solid entity at the position whose id is not the excluded one.
\<close>

fun GetEntityAt :: "Entity list \<Rightarrow> int \<Rightarrow> int \<Rightarrow> int \<Rightarrow> Entity option" where
  "GetEntityAt [] px py excludeId = None"
| "GetEntityAt (current # rest) px py excludeId =
     (if isAlive current \<and> x current = px \<and> y current = py
         \<and> id current \<noteq> excludeId \<and> isSolid current
      then Some current
      else GetEntityAt rest px py excludeId)"

record CollisionResult =
  canMove :: bool
  ctype :: CollisionType
  entityHit :: "Entity option"
  tileHit :: char

text \<open>
  Step 2 of \<open>CheckAllCollisions\<close>: the loop over the five default rules. A rule that
  names the tile records the tile and its kind in the result; a SOLID one also denies
  and returns at once (the flag says whether the function returned inside the loop).
\<close>

fun tile_rules :: "CollisionRule list \<Rightarrow> char \<Rightarrow> CollisionResult \<Rightarrow> CollisionResult \<times> bool" where
  "tile_rules [] c result = (result, False)"
| "tile_rules (r # rs) c result =
     (if tile r = c then
        (let result' = result\<lparr>tileHit := c, ctype := type r\<rparr> in
         if type r = COLLISION_SOLID then (result'\<lparr>canMove := False\<rparr>, True)
         else tile_rules rs c result')
      else tile_rules rs c result)"

definition CheckAllCollisions ::
  "LayeredMap \<Rightarrow> Entity list \<Rightarrow> Entity \<Rightarrow> int \<Rightarrow> int \<Rightarrow> CollisionResult outcome" where
  "CheckAllCollisions m entityList mover newX newY =
     (let result = \<lparr>canMove = True, ctype = COLLISION_NONE, entityHit = None, tileHit = CHR ''.''\<rparr> in
      if newX < 0 \<or> newX \<ge> width m \<or> newY < 0 \<or> newY \<ge> height m
      then Return (result\<lparr>canMove := False, ctype := COLLISION_SOLID\<rparr>)
      else case read_at (collision m) (newY * width m + newX) of
             None \<Rightarrow> OutOfBounds
           | Some c \<Rightarrow>
               (case tile_rules (take 5 defaultRules) c result of
                  (result', True) \<Rightarrow> Return result'
                | (result', False) \<Rightarrow>
                    (case GetEntityAt entityList newX newY (id mover) of
                       None \<Rightarrow> Return result'
                     | Some hit \<Rightarrow>
                         if isSolid hit
                         then Return (result'\<lparr>canMove := False, ctype := COLLISION_SOLID,
                                               entityHit := Some hit\<rparr>)
                         else Return result')))"

text \<open>The collision responses: both write positions with no check of the destination.\<close>

definition PushEntity :: "Entity \<Rightarrow> Entity \<Rightarrow> Entity \<times> Entity" where
  "PushEntity mover target =
     (let dx = x target - x mover; dy = y target - y mover
      in (mover, target\<lparr>x := x target + dx, y := y target + dy\<rparr>))"

definition SwapPositions :: "Entity \<Rightarrow> Entity \<Rightarrow> Entity \<times> Entity" where
  "SwapPositions mover target =
     (let tempX = x mover; tempY = y mover
      in (mover\<lparr>x := x target, y := y target\<rparr>, target\<lparr>x := tempX, y := tempY\<rparr>))"

text \<open>
  The kind the rule table gives a tile: the kind of the first rule that names it,
  \<open>COLLISION_NONE\<close> when no rule does.
\<close>

definition rule_kind :: "char \<Rightarrow> CollisionType" where
  "rule_kind c = (case find (\<lambda>r. tile r = c) defaultRules of
                    None \<Rightarrow> COLLISION_NONE | Some r \<Rightarrow> type r)"

text \<open>A live solid entity other than the mover stands on the cell.\<close>

definition occupied :: "Entity list \<Rightarrow> Entity \<Rightarrow> int \<Rightarrow> int \<Rightarrow> bool" where
  "occupied entityList mover px py =
     list_ex (\<lambda>e. isAlive e \<and> isSolid e \<and> x e = px \<and> y e = py \<and> id e \<noteq> id mover) entityList"

definition in_bounds :: "LayeredMap \<Rightarrow> int \<Rightarrow> int \<Rightarrow> bool" where
  "in_bounds m px py = (0 \<le> px \<and> px < width m \<and> 0 \<le> py \<and> py < height m)"

section \<open>Lesson 14: perception\<close>

datatype AIState =
  AI_STATE_IDLE | AI_STATE_PATROL | AI_STATE_CHASE | AI_STATE_FLEE
  | AI_STATE_ATTACK | AI_STATE_SEARCH | AI_STATE_DEAD

datatype AIType = AI_TYPE_ZOMBIE | AI_TYPE_GOBLIN | AI_TYPE_GUARD | AI_TYPE_ARCHER | AI_TYPE_BOSS

text \<open>
  The \<open>Enemy\<close> struct without its colour and its list link (enemy lists are lists).
  The float fields are reals. The code compares the personality scalars with the
  constants \<open>0.3f\<close> and \<open>0.7f\<close>; no float lies between \<open>0.3\<close> and \<open>0.3f\<close> or
  between \<open>0.7f\<close> and \<open>0.7\<close>, so both comparisons give on a float what the real
  comparison gives. The timers are sums of frame times, exact here and rounded in the
  code.
\<close>

record Enemy =
  x :: int
  y :: int
  symbol :: char
  health :: int
  maxHealth :: int
  type :: AIType
  state :: AIState
  sightRange :: int
  hearingRange :: int
  canSeePlayer :: bool
  lastSeenPlayerX :: int
  lastSeenPlayerY :: int
  moveSpeed :: real
  timeSinceMove :: real
  patrolIndex :: int
  attackDamage :: int
  attackCooldown :: real
  timeSinceAttack :: real
  courage :: real
  aggression :: real

record Player =
  x :: int
  y :: int
  symbol :: char
  health :: int
  maxHealth :: int

definition ManhattanDistance :: "int \<Rightarrow> int \<Rightarrow> int \<Rightarrow> int \<Rightarrow> int" where
  "ManhattanDistance x1 y1 x2 y2 = \<bar>x2 - x1\<bar> + \<bar>y2 - y1\<bar>"

text \<open>
  The occlusion loop of \<open>CanSeePosition\<close>. With an arbitrary error term the loop need
  not reach the target, so it is a partial function: \<open>None\<close> is a loop that never
  returns, \<open>Some OutOfBounds\<close> a read outside the map buffer.
\<close>

partial_function (option) sight_loop ::
  "char list \<Rightarrow> int \<Rightarrow> int \<Rightarrow> int \<Rightarrow> int \<Rightarrow> int \<Rightarrow> int \<Rightarrow> int
     \<Rightarrow> int \<Rightarrow> int \<Rightarrow> int \<Rightarrow> bool outcome option" where
  "sight_loop tmap mapWidth targetX targetY dx dy sx sy cx cy err =
     (if cx \<noteq> targetX \<or> cy \<noteq> targetY then
        (case read_at tmap (cy * mapWidth + cx) of
           None \<Rightarrow> Some OutOfBounds
         | Some c \<Rightarrow>
             if c = CHR ''#'' then Some (Return False)
             else
               (let e2 = 2 * err;
                    err1 = (if e2 > - dy then err - dy else err);
                    cx1 = (if e2 > - dy then cx + sx else cx);
                    err2 = (if e2 < dx then err1 + dx else err1);
                    cy1 = (if e2 < dx then cy + sy else cy)
                in sight_loop tmap mapWidth targetX targetY dx dy sx sy cx1 cy1 err2))
      else Some (Return True))"

declare sight_loop.simps [code]

definition CanSeePosition :: "Enemy \<Rightarrow> int \<Rightarrow> int \<Rightarrow> char list \<Rightarrow> int \<Rightarrow> bool outcome option" where
  "CanSeePosition enemy targetX targetY tmap mapWidth =
     (let distance = ManhattanDistance (Enemy.x enemy) (Enemy.y enemy) targetX targetY in
      if distance > sightRange enemy then Some (Return False)
      else
        (let cx = Enemy.x enemy;
             cy = Enemy.y enemy;
             dx = \<bar>targetX - cx\<bar>;
             dy = \<bar>targetY - cy\<bar>;
             sx = (if cx < targetX then 1 else - 1);
             sy = (if cy < targetY then 1 else - 1);
             err = dx - dy
         in sight_loop tmap mapWidth targetX targetY dx dy sx sy cx cy err))"

text \<open>
  The line the loop walks, as a list: one move of the loop body, and the cells the loop
  stands on before it reaches the target (at most \<open>n\<close> of them). The target itself is
  never in the list.
\<close>

definition line_step :: "int \<Rightarrow> int \<Rightarrow> int \<Rightarrow> int \<Rightarrow> int \<times> int \<times> int \<Rightarrow> int \<times> int \<times> int" where
  "line_step dx dy sx sy s =
     (case s of (cx, cy, err) \<Rightarrow>
        (let e2 = 2 * err;
             err1 = (if e2 > - dy then err - dy else err);
             cx1 = (if e2 > - dy then cx + sx else cx);
             err2 = (if e2 < dx then err1 + dx else err1);
             cy1 = (if e2 < dx then cy + sy else cy)
         in (cx1, cy1, err2)))"

fun scan_cells :: "nat \<Rightarrow> int \<Rightarrow> int \<Rightarrow> int \<Rightarrow> int \<Rightarrow> int \<Rightarrow> int \<Rightarrow> int \<times> int \<times> int \<Rightarrow> (int \<times> int) list" where
  "scan_cells 0 targetX targetY dx dy sx sy s = []"
| "scan_cells (Suc n) targetX targetY dx dy sx sy s =
     (if fst s \<noteq> targetX \<or> fst (snd s) \<noteq> targetY
      then (fst s, fst (snd s)) # scan_cells n targetX targetY dx dy sx sy (line_step dx dy sx sy s)
      else [])"

definition sight_cells :: "int \<Rightarrow> int \<Rightarrow> int \<Rightarrow> int \<Rightarrow> (int \<times> int) list" where
  "sight_cells ox oy targetX targetY =
     (let dx = \<bar>targetX - ox\<bar>;
          dy = \<bar>targetY - oy\<bar>;
          sx = (if ox < targetX then 1 else - 1);
          sy = (if oy < targetY then 1 else - 1)
      in scan_cells (nat (dx + dy)) targetX targetY dx dy sx sy (ox, oy, dx - dy))"

text \<open>Reading the listed cells in order: the first wall answers false.\<close>

fun scan_tiles :: "char list \<Rightarrow> int \<Rightarrow> (int \<times> int) list \<Rightarrow> bool outcome" where
  "scan_tiles tmap mapWidth [] = Return True"
| "scan_tiles tmap mapWidth (c # cs) =
     (case read_at tmap (snd c * mapWidth + fst c) of
        None \<Rightarrow> OutOfBounds
      | Some t \<Rightarrow> if t = CHR ''#'' then Return False else scan_tiles tmap mapWidth cs)"

section \<open>Lesson 14: the behaviour state machine\<close>

text \<open>
  Functions the lesson calls and leaves to the reader; they are not in the sources, so
  the model takes them as parameters: the four-argument \<open>CanMoveTo (map, mapWidth, x, y)\<close>
  of the movement code, and the update functions of the PATROL, FLEE, ATTACK and SEARCH
  states.
\<close>

record absent_functions =
  CanMoveTo4 :: "char list \<Rightarrow> int \<Rightarrow> int \<Rightarrow> int \<Rightarrow> bool"
  UpdatePatrolState :: "Enemy \<Rightarrow> Player \<Rightarrow> char list \<Rightarrow> int \<Rightarrow> real \<Rightarrow> Enemy"
  UpdateFleeState :: "Enemy \<Rightarrow> Player \<Rightarrow> char list \<Rightarrow> int \<Rightarrow> real \<Rightarrow> Enemy"
  UpdateAttackState :: "Enemy \<Rightarrow> Player \<Rightarrow> real \<Rightarrow> Enemy"
  UpdateSearchState :: "Enemy \<Rightarrow> Player \<Rightarrow> real \<Rightarrow> Enemy"

definition UpdateEnemyPerception :: "Enemy \<Rightarrow> Player \<Rightarrow> char list \<Rightarrow> int \<Rightarrow> Enemy outcome option" where
  "UpdateEnemyPerception enemy player tmap mapWidth =
     (case CanSeePosition enemy (Player.x player) (Player.y player) tmap mapWidth of
        None \<Rightarrow> None
      | Some OutOfBounds \<Rightarrow> Some OutOfBounds
      | Some (Return sees) \<Rightarrow>
          (let enemy1 = enemy\<lparr>canSeePlayer := sees\<rparr> in
           if canSeePlayer enemy1
           then Some (Return (enemy1\<lparr>lastSeenPlayerX := Player.x player,
                                       lastSeenPlayerY := Player.y player\<rparr>))
           else Some (Return enemy1)))"

text \<open>
  \<open>UpdateIdleState\<close>; \<open>rnd\<close> is the value \<open>rand()\<close> returns if it is called (not
  negative, so that \<open>%\<close> is \<open>mod\<close>). The two early returns leave the random roll to the
  other paths.
\<close>

definition UpdateIdleState :: "int \<Rightarrow> Enemy \<Rightarrow> Player \<Rightarrow> real \<Rightarrow> Enemy" where
  "UpdateIdleState rnd enemy player deltaTime =
     (let roll = (if rnd mod 1000 < 5 then enemy\<lparr>state := AI_STATE_PATROL\<rparr> else enemy) in
      if canSeePlayer enemy then
        (let distanceToPlayer =
               real_of_int (ManhattanDistance (Enemy.x enemy) (Enemy.y enemy)
                              (Player.x player) (Player.y player))
         in if courage enemy < 3 / 10 \<and> distanceToPlayer < 5
            then enemy\<lparr>state := AI_STATE_FLEE\<rparr>
            else if aggression enemy > 7 / 10
            then enemy\<lparr>state := AI_STATE_CHASE\<rparr>
            else roll)
      else roll)"

definition MoveTowardsTarget ::
  "absent_functions \<Rightarrow> Enemy \<Rightarrow> int \<Rightarrow> int \<Rightarrow> char list \<Rightarrow> int \<Rightarrow> Enemy" where
  "MoveTowardsTarget fs enemy targetX targetY tmap mapWidth =
     (let dx = targetX - Enemy.x enemy;
          dy = targetY - Enemy.y enemy;
          moveX = (if dx > 0 then 1 else - 1);
          moveY = (if dy > 0 then 1 else - 1)
      in if \<bar>dx\<bar> > \<bar>dy\<bar> then
           (if CanMoveTo4 fs tmap mapWidth (Enemy.x enemy + moveX) (Enemy.y enemy)
            then enemy\<lparr>Enemy.x := Enemy.x enemy + moveX\<rparr>
            else if CanMoveTo4 fs tmap mapWidth (Enemy.x enemy) (Enemy.y enemy + moveY)
            then enemy\<lparr>Enemy.y := Enemy.y enemy + moveY\<rparr>
            else enemy)
         else
           (if CanMoveTo4 fs tmap mapWidth (Enemy.x enemy) (Enemy.y enemy + moveY)
            then enemy\<lparr>Enemy.y := Enemy.y enemy + moveY\<rparr>
            else if CanMoveTo4 fs tmap mapWidth (Enemy.x enemy + moveX) (Enemy.y enemy)
            then enemy\<lparr>Enemy.x := Enemy.x enemy + moveX\<rparr>
            else enemy))"

text \<open>
  \<open>UpdateChaseState\<close>. The move is due when \<open>timeSinceMove >= 1.0f / moveSpeed\<close>.
  The timer and the speed are reals here, so the sum and the quotient are exact where
  the code rounds them to floats: at a timer within one rounding step of the threshold
  the code may move where this definition does not. A zero speed stands for the float
  \<open>+0.0f\<close>, with which the quotient is infinite and the move is never due; with
  \<open>-0.0f\<close> the quotient of the code is minus infinity and its move is always due, a
  value that has no counterpart among the reals.
\<close>

definition UpdateChaseState ::
  "absent_functions \<Rightarrow> Enemy \<Rightarrow> Player \<Rightarrow> char list \<Rightarrow> int \<Rightarrow> real \<Rightarrow> Enemy" where
  "UpdateChaseState fs enemy player tmap mapWidth deltaTime =
     (let enemy1 = enemy\<lparr>timeSinceMove := timeSinceMove enemy + deltaTime\<rparr> in
      if \<not> canSeePlayer enemy1 then enemy1\<lparr>state := AI_STATE_SEARCH\<rparr>
      else
        (let distance = ManhattanDistance (Enemy.x enemy1) (Enemy.y enemy1)
                          (Player.x player) (Player.y player)
         in if distance \<le> 1 then enemy1\<lparr>state := AI_STATE_ATTACK\<rparr>
            else if moveSpeed enemy1 \<noteq> 0 \<and> timeSinceMove enemy1 \<ge> 1 / moveSpeed enemy1
            then (MoveTowardsTarget fs enemy1 (Player.x player) (Player.y player) tmap mapWidth)
                   \<lparr>timeSinceMove := 0\<rparr>
            else enemy1))"

text \<open>The dispatch of \<open>UpdateEnemyAI\<close>: the switch has no case for \<open>AI_STATE_DEAD\<close>.\<close>

fun dispatch_state ::
  "absent_functions \<Rightarrow> int \<Rightarrow> AIState \<Rightarrow> Enemy \<Rightarrow> Player \<Rightarrow> char list \<Rightarrow> int \<Rightarrow> real \<Rightarrow> Enemy" where
  "dispatch_state fs rnd AI_STATE_IDLE enemy player tmap mapWidth deltaTime =
     UpdateIdleState rnd enemy player deltaTime"
| "dispatch_state fs rnd AI_STATE_PATROL enemy player tmap mapWidth deltaTime =
     UpdatePatrolState fs enemy player tmap mapWidth deltaTime"
| "dispatch_state fs rnd AI_STATE_CHASE enemy player tmap mapWidth deltaTime =
     UpdateChaseState fs enemy player tmap mapWidth deltaTime"
| "dispatch_state fs rnd AI_STATE_FLEE enemy player tmap mapWidth deltaTime =
     UpdateFleeState fs enemy player tmap mapWidth deltaTime"
| "dispatch_state fs rnd AI_STATE_ATTACK enemy player tmap mapWidth deltaTime =
     UpdateAttackState fs enemy player deltaTime"
| "dispatch_state fs rnd AI_STATE_SEARCH enemy player tmap mapWidth deltaTime =
     UpdateSearchState fs enemy player deltaTime"
| "dispatch_state fs rnd AI_STATE_DEAD enemy player tmap mapWidth deltaTime = enemy"

definition UpdateEnemyAI ::
  "absent_functions \<Rightarrow> int \<Rightarrow> Enemy \<Rightarrow> Player \<Rightarrow> char list \<Rightarrow> int \<Rightarrow> real \<Rightarrow> Enemy outcome option" where
  "UpdateEnemyAI fs rnd enemy player tmap mapWidth deltaTime =
     (case UpdateEnemyPerception enemy player tmap mapWidth of
        None \<Rightarrow> None
      | Some OutOfBounds \<Rightarrow> Some OutOfBounds
      | Some (Return enemy1) \<Rightarrow>
          Some (Return (dispatch_state fs rnd (state enemy1) enemy1 player tmap mapWidth deltaTime)))"

text \<open>
  \<open>RaiseAlert\<close>. The alerter is named by its place in the list (the code compares
  pointers). The \<open>alerterId\<close> field is left out: the code reads it from an \<open>id\<close> that
  the \<open>Enemy\<close> struct does not have.
\<close>

record AlertSystem =
  alertX :: int
  alertY :: int
  alertTime :: real

definition alert_one :: "Enemy \<Rightarrow> Enemy \<Rightarrow> Enemy" where
  "alert_one alerter current =
     (if state current = AI_STATE_IDLE then
        (let distance = ManhattanDistance (Enemy.x current) (Enemy.y current)
                          (Enemy.x alerter) (Enemy.y alerter)
         in if distance \<le> hearingRange current then
              (if Enemy.type current = AI_TYPE_GUARD
               then current\<lparr>state := AI_STATE_SEARCH,
                             lastSeenPlayerX := Enemy.x alerter,
                             lastSeenPlayerY := Enemy.y alerter\<rparr>
               else if courage current < 1 / 2
               then current\<lparr>state := AI_STATE_FLEE\<rparr>
               else current)
            else current)
      else current)"

definition RaiseAlert :: "nat \<Rightarrow> Enemy list \<Rightarrow> AlertSystem \<Rightarrow> Enemy list \<times> AlertSystem" where
  "RaiseAlert i allEnemies alerts =
     (let alerter = allEnemies ! i
      in (map (\<lambda>(j, current). if j \<noteq> i then alert_one alerter current else current)
              (zip [0..<length allEnemies] allEnemies),
          alerts\<lparr>alertX := Enemy.x alerter, alertY := Enemy.y alerter, alertTime := 0\<rparr>))"

text \<open>
  The main loop of the lesson: the player's move, then the update of every enemy in list
  order. \<open>rnd i\<close> is the value \<open>rand()\<close> returns in the update of enemy \<open>i\<close>.
\<close>

definition player_move :: "Player \<Rightarrow> int \<Rightarrow> int \<Rightarrow> Enemy list \<Rightarrow> char list \<Rightarrow> int \<Rightarrow> Player outcome" where
  "player_move player dx dy enemies tmap mapWidth =
     (if dx \<noteq> 0 \<or> dy \<noteq> 0 then
        (let newX = Player.x player + dx; newY = Player.y player + dy
         in case read_at tmap (newY * mapWidth + newX) of
              None \<Rightarrow> OutOfBounds
            | Some t \<Rightarrow>
                if t \<noteq> CHR ''#'' then
                  (if list_ex (\<lambda>current. Enemy.x current = newX \<and> Enemy.y current = newY) enemies
                   then Return player
                   else Return (player\<lparr>Player.x := newX, Player.y := newY\<rparr>))
                else Return player)
      else Return player)"

fun update_enemies ::
  "absent_functions \<Rightarrow> (nat \<Rightarrow> int) \<Rightarrow> Player \<Rightarrow> char list \<Rightarrow> int \<Rightarrow> real
     \<Rightarrow> nat \<Rightarrow> nat \<Rightarrow> Enemy list \<times> AlertSystem \<Rightarrow> (Enemy list \<times> AlertSystem) outcome option" where
  "update_enemies fs rnd player tmap mapWidth deltaTime 0 i (enemies, alerts) =
     Some (Return (enemies, alerts))"
| "update_enemies fs rnd player tmap mapWidth deltaTime (Suc k) i (enemies, alerts) =
     (if state (enemies ! i) \<noteq> AI_STATE_DEAD then
        (case UpdateEnemyAI fs (rnd i) (enemies ! i) player tmap mapWidth deltaTime of
           None \<Rightarrow> None
         | Some OutOfBounds \<Rightarrow> Some OutOfBounds
         | Some (Return current) \<Rightarrow>
             (let enemies1 = enemies[i := current] in
              update_enemies fs rnd player tmap mapWidth deltaTime k (Suc i)
                (if canSeePlayer current \<and> alertTime alerts < 0
                 then RaiseAlert i enemies1 alerts
                 else (enemies1, alerts))))
      else update_enemies fs rnd player tmap mapWidth deltaTime k (Suc i) (enemies, alerts))"

definition update_all_enemies ::
  "absent_functions \<Rightarrow> (nat \<Rightarrow> int) \<Rightarrow> Player \<Rightarrow> char list \<Rightarrow> int \<Rightarrow> real
     \<Rightarrow> Enemy list \<times> AlertSystem \<Rightarrow> (Enemy list \<times> AlertSystem) outcome option" where
  "update_all_enemies fs rnd player tmap mapWidth deltaTime st =
     update_enemies fs rnd player tmap mapWidth deltaTime (length (fst st)) 0 st"

text \<open>
  One pass of the main loop: the player's input \<open>(dx, dy)\<close>, the update of all enemies,
  the alert timer.
\<close>

definition game_tick ::
  "absent_functions \<Rightarrow> (nat \<Rightarrow> int) \<Rightarrow> int \<Rightarrow> int \<Rightarrow> real \<Rightarrow> char list \<Rightarrow> int
     \<Rightarrow> Player \<times> Enemy list \<times> AlertSystem \<Rightarrow> (Player \<times> Enemy list \<times> AlertSystem) outcome option" where
  "game_tick fs rnd dx dy deltaTime tmap mapWidth st =
     (case st of (player, enemies, alerts) \<Rightarrow>
        (case player_move player dx dy enemies tmap mapWidth of
           OutOfBounds \<Rightarrow> Some OutOfBounds
         | Return player1 \<Rightarrow>
             (case update_all_enemies fs rnd player1 tmap mapWidth deltaTime (enemies, alerts) of
                None \<Rightarrow> None
              | Some OutOfBounds \<Rightarrow> Some OutOfBounds
              | Some (Return (enemies1, alerts1)) \<Rightarrow>
                  (let alerts2 =
                         (if alertTime alerts1 \<ge> 0 then
                            (if alertTime alerts1 + deltaTime > 5
                             then alerts1\<lparr>alertTime := - 1\<rparr>
                             else alerts1\<lparr>alertTime := alertTime alerts1 + deltaTime\<rparr>)
                          else alerts1)
                   in Some (Return (player1, enemies1, alerts2))))))"

section \<open>Lesson 14: breadcrumb pathfinding\<close>

text \<open>Loops whose body may read outside a buffer stop there.\<close>

fun fold_outcome :: "('a \<Rightarrow> 's \<Rightarrow> 's outcome) \<Rightarrow> 'a list \<Rightarrow> 's \<Rightarrow> 's outcome" where
  "fold_outcome f [] s = Return s"
| "fold_outcome f (a # as) s =
     (case f a s of OutOfBounds \<Rightarrow> OutOfBounds | Return s' \<Rightarrow> fold_outcome f as s')"

text \<open>The offsets \<open>dx[] = {0, 0, -1, 1}\<close> and \<open>dy[] = {-1, 1, 0, 0}\<close>, paired.\<close>

definition neighbour_offsets :: "(int \<times> int) list" where
  "neighbour_offsets = [(0, - 1), (0, 1), (- 1, 0), (1, 0)]"

text \<open>
  The flood fill works in place on \<open>distanceMap\<close>; the state of a sweep is the map
  and the \<open>changed\<close> flag. One neighbour of a cell at the current distance:
\<close>

definition visit_neighbour ::
  "char list \<Rightarrow> int \<Rightarrow> int \<Rightarrow> int \<Rightarrow> int \<Rightarrow> int \<Rightarrow> int \<times> int \<Rightarrow> int list \<times> bool
     \<Rightarrow> (int list \<times> bool) outcome" where
  "visit_neighbour tmap mapWidth mapHeight currentDistance cx cy off st =
     (let nx = cx + fst off; ny = cy + snd off in
      if nx \<ge> 0 \<and> nx < mapWidth \<and> ny \<ge> 0 \<and> ny < mapHeight then
        (case read_at tmap (ny * mapWidth + nx) of
           None \<Rightarrow> OutOfBounds
         | Some t \<Rightarrow>
             if t \<noteq> CHR ''#'' then
               (case read_at (fst st) (ny * mapWidth + nx) of
                  None \<Rightarrow> OutOfBounds
                | Some d \<Rightarrow>
                    if d = - 1
                    then Return ((fst st)[nat (ny * mapWidth + nx) := currentDistance + 1], True)
                    else Return st)
             else Return st)
      else Return st)"

definition visit_cell ::
  "char list \<Rightarrow> int \<Rightarrow> int \<Rightarrow> int \<Rightarrow> int \<times> int \<Rightarrow> int list \<times> bool \<Rightarrow> (int list \<times> bool) outcome" where
  "visit_cell tmap mapWidth mapHeight currentDistance cell st =
     (case read_at (fst st) (snd cell * mapWidth + fst cell) of
        None \<Rightarrow> OutOfBounds
      | Some d \<Rightarrow>
          if d = currentDistance
          then fold_outcome
                 (visit_neighbour tmap mapWidth mapHeight currentDistance (fst cell) (snd cell))
                 neighbour_offsets st
          else Return st)"

text \<open>The cells in the order of the two \<open>for\<close> loops: rows from 0, columns from 0.\<close>

definition grid_cells :: "int \<Rightarrow> int \<Rightarrow> (int \<times> int) list" where
  "grid_cells mapWidth mapHeight =
     concat (map (\<lambda>cy. map (\<lambda>cx. (cx, cy)) [0 .. mapWidth - 1]) [0 .. mapHeight - 1])"

definition sweep :: "char list \<Rightarrow> int \<Rightarrow> int \<Rightarrow> int \<Rightarrow> int list \<Rightarrow> (int list \<times> bool) outcome" where
  "sweep tmap mapWidth mapHeight currentDistance distanceMap =
     fold_outcome (visit_cell tmap mapWidth mapHeight currentDistance)
       (grid_cells mapWidth mapHeight) (distanceMap, False)"

partial_function (option) flood_loop ::
  "char list \<Rightarrow> int \<Rightarrow> int \<Rightarrow> int list \<Rightarrow> int \<Rightarrow> int list outcome option" where
  "flood_loop tmap mapWidth mapHeight distanceMap currentDistance =
     (case sweep tmap mapWidth mapHeight currentDistance distanceMap of
        OutOfBounds \<Rightarrow> Some OutOfBounds
      | Return st \<Rightarrow>
          if snd st
          then flood_loop tmap mapWidth mapHeight (fst st) (currentDistance + 1)
          else Some (Return (fst st)))"

declare flood_loop.simps [code]

text \<open>
  The first half of \<open>MoveWithBreadcrumbs\<close>: the distance map, all \<open>-1\<close>, then \<open>0\<close> at
  the target, then the flood fill.
\<close>

definition distance_field :: "int \<Rightarrow> int \<Rightarrow> char list \<Rightarrow> int \<Rightarrow> int \<Rightarrow> int list outcome option" where
  "distance_field targetX targetY tmap mapWidth mapHeight =
     (let distanceMap = replicate (nat (mapWidth * mapHeight)) (- 1 :: int) in
      case read_at distanceMap (targetY * mapWidth + targetX) of
        None \<Rightarrow> Some OutOfBounds
      | Some _ \<Rightarrow>
          flood_loop tmap mapWidth mapHeight
            (distanceMap[nat (targetY * mapWidth + targetX) := 0]) 0)"

definition INT_MAX :: int where
  "INT_MAX = 2147483647"

text \<open>One adjacent cell in the choice of the best move: state \<open>(bestX, bestY, bestDistance)\<close>.\<close>

definition best_neighbour ::
  "char list \<Rightarrow> int \<Rightarrow> int \<Rightarrow> int list \<Rightarrow> Enemy \<Rightarrow> int \<times> int \<Rightarrow> int \<times> int \<times> int
     \<Rightarrow> (int \<times> int \<times> int) outcome" where
  "best_neighbour tmap mapWidth mapHeight distanceMap enemy off best =
     (let nx = Enemy.x enemy + fst off; ny = Enemy.y enemy + snd off in
      if nx \<ge> 0 \<and> nx < mapWidth \<and> ny \<ge> 0 \<and> ny < mapHeight then
        (case read_at tmap (ny * mapWidth + nx) of
           None \<Rightarrow> OutOfBounds
         | Some t \<Rightarrow>
             if t \<noteq> CHR ''#'' then
               (case read_at distanceMap (ny * mapWidth + nx) of
                  None \<Rightarrow> OutOfBounds
                | Some nd \<Rightarrow>
                    if nd \<ge> 0 \<and> nd < snd (snd best) then Return (nx, ny, nd)
                    else Return best)
             else Return best)
      else Return best)"

text \<open>
  The choice of the best move: the four adjacent cells in order, starting from the
  agent's own position with \<open>bestDistance = INT_MAX\<close>.
\<close>

definition best_move ::
  "char list \<Rightarrow> int \<Rightarrow> int \<Rightarrow> int list \<Rightarrow> Enemy \<Rightarrow> (int \<times> int \<times> int) outcome" where
  "best_move tmap mapWidth mapHeight distanceMap enemy =
     fold_outcome (best_neighbour tmap mapWidth mapHeight distanceMap enemy)
       neighbour_offsets (Enemy.x enemy, Enemy.y enemy, INT_MAX)"

definition MoveWithBreadcrumbs ::
  "Enemy \<Rightarrow> int \<Rightarrow> int \<Rightarrow> char list \<Rightarrow> int \<Rightarrow> int \<Rightarrow> Enemy outcome option" where
  "MoveWithBreadcrumbs enemy targetX targetY tmap mapWidth mapHeight =
     (case distance_field targetX targetY tmap mapWidth mapHeight of
        None \<Rightarrow> None
      | Some OutOfBounds \<Rightarrow> Some OutOfBounds
      | Some (Return distanceMap) \<Rightarrow>
          (case best_move tmap mapWidth mapHeight distanceMap enemy of
             OutOfBounds \<Rightarrow> Some OutOfBounds
           | Return best \<Rightarrow>
               Some (Return (enemy\<lparr>Enemy.x := fst best, Enemy.y := fst (snd best)\<rparr>))))"

section \<open>Notions used in the statements\<close>

text \<open>
  Tile \<open>(px, py)\<close> lies on the segment between the centres of the tiles \<open>(ax, ay)\<close>
  and \<open>(bx, by)\<close>: it is inside their bounding box and its closed unit square meets
  the straight line through the two centres.
\<close>

definition on_segment :: "int \<Rightarrow> int \<Rightarrow> int \<Rightarrow> int \<Rightarrow> int \<Rightarrow> int \<Rightarrow> bool" where
  "on_segment ax ay bx by px py \<longleftrightarrow>
     min ax bx \<le> px \<and> px \<le> max ax bx \<and> min ay by \<le> py \<and> py \<le> max ay by
     \<and> \<bar>2 * ((bx - ax) * (py - ay) - (by - ay) * (px - ax))\<bar> \<le> \<bar>bx - ax\<bar> + \<bar>by - ay\<bar>"

text \<open>
  The segment between the centres of the tiles \<open>(ax, ay)\<close> and \<open>(bx, by)\<close> passes
  through tile \<open>(px, py)\<close>: the tile is inside the bounding box and the straight line
  through the two centres meets the interior of its unit square. A tile that the line
  only touches at a corner is not passed through. Both end tiles are passed through
  when they differ.
\<close>

definition segment_crosses :: "int \<Rightarrow> int \<Rightarrow> int \<Rightarrow> int \<Rightarrow> int \<Rightarrow> int \<Rightarrow> bool" where
  "segment_crosses ax ay bx by px py \<longleftrightarrow>
     min ax bx \<le> px \<and> px \<le> max ax bx \<and> min ay by \<le> py \<and> py \<le> max ay by
     \<and> \<bar>2 * ((bx - ax) * (py - ay) - (by - ay) * (px - ax))\<bar> < \<bar>bx - ax\<bar> + \<bar>by - ay\<bar>"

text \<open>
  The state of the line walk with \<open>a\<close> moves left to make in x and \<open>b\<close> in y. Unless
  the walk is from a tile to itself, the error term stays strictly inside its bounds.
\<close>

definition line_inv :: "int \<Rightarrow> int \<Rightarrow> int \<Rightarrow> int \<Rightarrow> int \<Rightarrow> int \<Rightarrow> int \<Rightarrow> int \<Rightarrow> int \<times> int \<times> int \<Rightarrow> bool" where
  "line_inv targetX targetY dx dy sx sy a b s \<longleftrightarrow>
     0 \<le> a \<and> a \<le> dx \<and> 0 \<le> b \<and> b \<le> dy \<and> (sx = 1 \<or> sx = - 1) \<and> (sy = 1 \<or> sy = - 1)
     \<and> fst s = targetX - sx * a \<and> fst (snd s) = targetY - sy * b
     \<and> snd (snd s) = dx - dy + a * dy - b * dx
     \<and> (dx = 0 \<and> dy = 0 \<or> dx - 3 * dy < 2 * snd (snd s) \<and> 2 * snd (snd s) < 3 * dx - dy)"


text \<open>
  The distance map seen as a field over the cells of the grid, and the grid itself: a cell
  inside the map, the index of its entry, 4-adjacency, a tile that is not a wall. The map
  buffer is assumed to hold the \<open>mapWidth * mapHeight\<close> tiles of a non-empty grid.
\<close>

definition in_grid :: "int \<Rightarrow> int \<Rightarrow> int \<times> int \<Rightarrow> bool" where
  "in_grid mapWidth mapHeight c \<longleftrightarrow>
     0 \<le> fst c \<and> fst c < mapWidth \<and> 0 \<le> snd c \<and> snd c < mapHeight"

definition cell_index :: "int \<Rightarrow> int \<times> int \<Rightarrow> nat" where
  "cell_index mapWidth c = nat (snd c * mapWidth + fst c)"

definition field_at :: "int list \<Rightarrow> int \<Rightarrow> int \<times> int \<Rightarrow> int" where
  "field_at distanceMap mapWidth c = distanceMap ! cell_index mapWidth c"

definition adjacent4 :: "int \<times> int \<Rightarrow> int \<times> int \<Rightarrow> bool" where
  "adjacent4 p q \<longleftrightarrow> \<bar>fst p - fst q\<bar> + \<bar>snd p - snd q\<bar> = 1"

definition open_tile :: "char list \<Rightarrow> int \<Rightarrow> int \<times> int \<Rightarrow> bool" where
  "open_tile tmap mapWidth c =
     (case read_at tmap (snd c * mapWidth + fst c) of None \<Rightarrow> False | Some t \<Rightarrow> t \<noteq> CHR ''#'')"

definition grid_ok :: "char list \<Rightarrow> int \<Rightarrow> int \<Rightarrow> bool" where
  "grid_ok tmap mapWidth mapHeight \<longleftrightarrow>
     0 < mapWidth \<and> 0 < mapHeight \<and> mapWidth * mapHeight \<le> int (length tmap)"

text \<open>
  A path the fill can follow: cells of the grid, each 4-adjacent to the one before it,
  every cell after the first not a wall. It leads away from the seed when it starts
  there and no such path from the seed to its last cell is shorter, so that every step
  takes it farther from the seed.
\<close>

fun fill_path :: "char list \<Rightarrow> int \<Rightarrow> int \<Rightarrow> (int \<times> int) list \<Rightarrow> bool" where
  "fill_path tmap mapWidth mapHeight [] = False"
| "fill_path tmap mapWidth mapHeight [c] = in_grid mapWidth mapHeight c"
| "fill_path tmap mapWidth mapHeight (c # d # cs) =
     (in_grid mapWidth mapHeight c \<and> adjacent4 c d \<and> open_tile tmap mapWidth d
      \<and> fill_path tmap mapWidth mapHeight (d # cs))"

definition leads_away :: "char list \<Rightarrow> int \<Rightarrow> int \<Rightarrow> int \<times> int \<Rightarrow> (int \<times> int) list \<Rightarrow> bool" where
  "leads_away tmap mapWidth mapHeight seed cs \<longleftrightarrow>
     fill_path tmap mapWidth mapHeight cs \<and> hd cs = seed
     \<and> (\<forall>ds. fill_path tmap mapWidth mapHeight ds \<and> hd ds = seed \<and> last ds = last cs
            \<longrightarrow> length cs \<le> length ds)"

text \<open>
  The effect of one neighbour visit and of one cell visit of the flood fill when no read
  leaves the buffers, and of a whole sweep.
\<close>

definition vn :: "char list \<Rightarrow> int \<Rightarrow> int \<Rightarrow> int \<Rightarrow> int \<times> int \<Rightarrow> int \<times> int \<Rightarrow> int list \<times> bool \<Rightarrow> int list \<times> bool" where
  "vn tmap mapWidth mapHeight currentDistance p off st =
     (let c = (fst p + fst off, snd p + snd off) in
      if in_grid mapWidth mapHeight c \<and> open_tile tmap mapWidth c \<and> field_at (fst st) mapWidth c = - 1
      then ((fst st)[cell_index mapWidth c := currentDistance + 1], True)
      else st)"

definition vc :: "char list \<Rightarrow> int \<Rightarrow> int \<Rightarrow> int \<Rightarrow> int \<times> int \<Rightarrow> int list \<times> bool \<Rightarrow> int list \<times> bool" where
  "vc tmap mapWidth mapHeight currentDistance p st =
     (if field_at (fst st) mapWidth p = currentDistance
      then fold (vn tmap mapWidth mapHeight currentDistance p) neighbour_offsets st
      else st)"

text \<open>
  What a sweep at distance \<open>currentDistance\<close> may do to the map it started from
  (\<open>dm0\<close>): an entry changes only from \<open>-1\<close> to \<open>currentDistance + 1\<close>, and only at a
  cell that is not a wall and has a neighbour at the current distance. A cell is closed
  when none of its neighbours that are not walls is unvisited.
\<close>

definition parent_ok :: "char list \<Rightarrow> int \<Rightarrow> int \<Rightarrow> int \<Rightarrow> int list \<Rightarrow> nat \<Rightarrow> bool" where
  "parent_ok tmap w h cur dm0 i \<longleftrightarrow>
     (\<exists>c q. in_grid w h c \<and> cell_index w c = i \<and> open_tile tmap w c
         \<and> in_grid w h q \<and> adjacent4 q c \<and> field_at dm0 w q = cur)"

definition grows :: "char list \<Rightarrow> int \<Rightarrow> int \<Rightarrow> int \<Rightarrow> int list \<Rightarrow> int list \<Rightarrow> int list \<Rightarrow> bool" where
  "grows tmap w h cur dm0 dm dm' \<longleftrightarrow>
     length dm' = length dm
     \<and> (\<forall>i < length dm. dm' ! i = dm ! i
            \<or> (dm ! i = - 1 \<and> dm' ! i = cur + 1 \<and> parent_ok tmap w h cur dm0 i))"

definition closed_at :: "char list \<Rightarrow> int \<Rightarrow> int \<Rightarrow> int list \<Rightarrow> int \<times> int \<Rightarrow> bool" where
  "closed_at tmap w h dm p \<longleftrightarrow>
     (\<forall>c. adjacent4 p c \<and> in_grid w h c \<and> open_tile tmap w c \<longrightarrow> field_at dm w c \<noteq> - 1)"

text \<open>The state of a sweep against the map it started from.\<close>

definition sweep_inv :: "char list \<Rightarrow> int \<Rightarrow> int \<Rightarrow> int \<Rightarrow> int list \<Rightarrow> int list \<times> bool \<Rightarrow> bool" where
  "sweep_inv tmap w h cur dm0 st \<longleftrightarrow>
     grows tmap w h cur dm0 dm0 (fst st)
     \<and> (if snd st then (\<exists>i < length dm0. dm0 ! i = - 1 \<and> fst st ! i \<noteq> - 1) else fst st = dm0)"

text \<open>
  The state of the flood fill before the sweep at distance \<open>cur\<close>, and the finished
  field: the seed has distance 0 and is the only cell that has; a cell with a positive
  distance is not a wall and has a neighbour with one less; every neighbour, not a wall,
  of a cell with a distance has a distance, at most one more.
\<close>

definition fill_inv :: "char list \<Rightarrow> int \<Rightarrow> int \<Rightarrow> int \<times> int \<Rightarrow> int \<Rightarrow> int list \<Rightarrow> bool" where
  "fill_inv tmap w h seed cur dm \<longleftrightarrow>
     length dm = nat (w * h)
     \<and> field_at dm w seed = 0
     \<and> (\<forall>c. in_grid w h c \<longrightarrow> - 1 \<le> field_at dm w c \<and> field_at dm w c \<le> cur)
     \<and> (\<forall>c. in_grid w h c \<and> field_at dm w c = 0 \<longrightarrow> c = seed)
     \<and> (\<forall>c. in_grid w h c \<and> 0 < field_at dm w c \<longrightarrow>
            open_tile tmap w c
            \<and> (\<exists>q. in_grid w h q \<and> adjacent4 q c \<and> field_at dm w q = field_at dm w c - 1))
     \<and> (\<forall>p. in_grid w h p \<and> 0 \<le> field_at dm w p \<and> field_at dm w p < cur \<longrightarrow>
            (\<forall>c. adjacent4 p c \<and> in_grid w h c \<and> open_tile tmap w c \<longrightarrow>
                 0 \<le> field_at dm w c \<and> field_at dm w c \<le> field_at dm w p + 1))"

definition field_ok :: "char list \<Rightarrow> int \<Rightarrow> int \<Rightarrow> int \<times> int \<Rightarrow> int list \<Rightarrow> bool" where
  "field_ok tmap w h seed dm \<longleftrightarrow>
     length dm = nat (w * h)
     \<and> field_at dm w seed = 0
     \<and> (\<forall>c. in_grid w h c \<longrightarrow> - 1 \<le> field_at dm w c)
     \<and> (\<forall>c. in_grid w h c \<and> field_at dm w c = 0 \<longrightarrow> c = seed)
     \<and> (\<forall>c. in_grid w h c \<and> 0 < field_at dm w c \<longrightarrow>
            open_tile tmap w c
            \<and> (\<exists>q. in_grid w h q \<and> adjacent4 q c \<and> field_at dm w q = field_at dm w c - 1))
     \<and> (\<forall>p. in_grid w h p \<and> 0 \<le> field_at dm w p \<longrightarrow>
            (\<forall>c. adjacent4 p c \<and> in_grid w h c \<and> open_tile tmap w c \<longrightarrow>
                 0 \<le> field_at dm w c \<and> field_at dm w c \<le> field_at dm w p + 1))"

section \<open>Example data\<close>

definition open_map :: "nat \<Rightarrow> char list" where
  "open_map n = replicate n CHR ''.''"

definition zombie_at :: "int \<Rightarrow> int \<Rightarrow> Enemy" where
  "zombie_at px py =
     \<lparr>Enemy.x = px, y = py, symbol = CHR ''z'', health = 30, maxHealth = 30,
      type = AI_TYPE_ZOMBIE, state = AI_STATE_IDLE, sightRange = 5, hearingRange = 3,
      canSeePlayer = False, lastSeenPlayerX = 0, lastSeenPlayerY = 0, moveSpeed = 1 / 2,
      timeSinceMove = 0, patrolIndex = 0, attackDamage = 10, attackCooldown = 0,
      timeSinceAttack = 0, courage = 1, aggression = 1\<rparr>"

definition entity_at :: "int \<Rightarrow> int \<Rightarrow> int \<Rightarrow> Entity" where
  "entity_at n px py = \<lparr>Entity.x = px, y = py, symbol = CHR ''N'', isSolid = True, isAlive = True, id = n\<rparr>"

definition row_map :: "char list \<Rightarrow> LayeredMap" where
  "row_map cs = \<lparr>visual = cs, collision = cs, width = int (length cs), height = 1\<rparr>"

text \<open>
  An instance of the absent functions for the examples: \<open>CanMoveTo\<close> as the tile test
  that the lesson's main loop applies to the player's move, and state updates that leave
  the enemy as it is.
\<close>

definition example_functions :: absent_functions where
  "example_functions =
     \<lparr>CanMoveTo4 = (\<lambda>tmap mapWidth px py.
          case read_at tmap (py * mapWidth + px) of None \<Rightarrow> False | Some t \<Rightarrow> t \<noteq> CHR ''#''),
      UpdatePatrolState = (\<lambda>enemy player tmap mapWidth deltaTime. enemy),
      UpdateFleeState = (\<lambda>enemy player tmap mapWidth deltaTime. enemy),
      UpdateAttackState = (\<lambda>enemy player deltaTime. enemy),
      UpdateSearchState = (\<lambda>enemy player deltaTime. enemy)\<rparr>"

definition goblin_at :: "int \<Rightarrow> int \<Rightarrow> Enemy" where
  "goblin_at px py =
     (zombie_at px py)\<lparr>Enemy.symbol := CHR ''g'', Enemy.health := 15, Enemy.maxHealth := 15,
        Enemy.type := AI_TYPE_GOBLIN, sightRange := 7, hearingRange := 5, moveSpeed := 2,
        attackDamage := 5, courage := 1 / 10, aggression := 1 / 10\<rparr>"

definition player_at :: "int \<Rightarrow> int \<Rightarrow> Player" where
  "player_at px py = \<lparr>Player.x = px, y = py, symbol = CHR ''@'', health = 100, maxHealth = 100\<rparr>"

definition no_alert :: AlertSystem where
  "no_alert = \<lparr>alertX = 0, alertY = 0, alertTime = - 1\<rparr>"

section \<open>The collision resolver\<close>

lemma tile_rules_default:
  "tile_rules (take 5 defaultRules) c r =
    (if rule_kind c = COLLISION_NONE then (r, False)
     else if rule_kind c = COLLISION_SOLID
       then (r\<lparr>tileHit := c, ctype := COLLISION_SOLID, canMove := False\<rparr>, True)
     else (r\<lparr>tileHit := c, ctype := rule_kind c\<rparr>, False))"
  by (auto simp: defaultRules_def rule_kind_def)

lemma GetEntityAt_None:
  "GetEntityAt es px py ex = None \<longleftrightarrow>
     \<not> list_ex (\<lambda>e. isAlive e \<and> isSolid e \<and> Entity.x e = px \<and> Entity.y e = py \<and> Entity.id e \<noteq> ex) es"
  by (induction es) auto

lemma GetEntityAt_Some:
  "GetEntityAt es px py ex = Some hit \<Longrightarrow>
     hit \<in> set es \<and> isAlive hit \<and> isSolid hit \<and> Entity.x hit = px \<and> Entity.y hit = py \<and> Entity.id hit \<noteq> ex"
  by (induction es) (auto split: if_splits)


lemma rule_kind_values:
  "rule_kind CHR ''#'' = COLLISION_SOLID" "rule_kind CHR ''+'' = COLLISION_SOLID"
  "rule_kind CHR ''~'' = COLLISION_SLOW" "rule_kind CHR ''^'' = COLLISION_DAMAGE"
  "rule_kind CHR ''='' = COLLISION_TRIGGER" "rule_kind CHR ''.'' = COLLISION_NONE"
  by (simp_all add: rule_kind_def defaultRules_def)

text \<open>
  Claim C1. \<open>CheckAllCollisions\<close> decides a move in the order bounds, tile, occupant,
  and stops at the first denial. A destination outside the map is denied with kind SOLID.
  Inside the map, a tile that the rules make SOLID denies. Otherwise the tile step lets
  the move pass with the tile's kind (TRIGGER, DAMAGE, SLOW, or NONE) and the occupancy
  step decides: with no live solid entity other than the mover on the cell, the move is
  allowed and the result carries the tile's kind; with one, the move is denied with
  kind SOLID and the occupant is reported.
\<close>

theorem CheckAllCollisions_order:
  "(\<not> in_bounds m newX newY \<longrightarrow>
      (\<exists>r. CheckAllCollisions m es mover newX newY = Return r
           \<and> \<not> canMove r \<and> ctype r = COLLISION_SOLID \<and> entityHit r = None))
   \<and> (in_bounds m newX newY \<and> read_at (collision m) (newY * width m + newX) = Some c \<longrightarrow>
       (rule_kind c = COLLISION_SOLID \<longrightarrow>
          (\<exists>r. CheckAllCollisions m es mover newX newY = Return r
               \<and> \<not> canMove r \<and> ctype r = COLLISION_SOLID \<and> tileHit r = c \<and> entityHit r = None))
     \<and> (rule_kind c \<noteq> COLLISION_SOLID \<and> \<not> occupied es mover newX newY \<longrightarrow>
          (\<exists>r. CheckAllCollisions m es mover newX newY = Return r
               \<and> canMove r \<and> ctype r = rule_kind c \<and> entityHit r = None))
     \<and> (rule_kind c \<noteq> COLLISION_SOLID \<and> occupied es mover newX newY \<longrightarrow>
          (\<exists>r hit. CheckAllCollisions m es mover newX newY = Return r
               \<and> \<not> canMove r \<and> ctype r = COLLISION_SOLID \<and> entityHit r = Some hit
               \<and> hit \<in> set es \<and> isAlive hit \<and> isSolid hit
               \<and> Entity.x hit = newX \<and> Entity.y hit = newY \<and> Entity.id hit \<noteq> Entity.id mover)))"
proof (intro conjI impI)
  assume "\<not> in_bounds m newX newY"
  then show "\<exists>r. CheckAllCollisions m es mover newX newY = Return r
           \<and> \<not> canMove r \<and> ctype r = COLLISION_SOLID \<and> entityHit r = None"
    by (auto simp: CheckAllCollisions_def in_bounds_def)
next
  assume a: "in_bounds m newX newY \<and> read_at (collision m) (newY * width m + newX) = Some c"
    and k: "rule_kind c = COLLISION_SOLID"
  from a k show "\<exists>r. CheckAllCollisions m es mover newX newY = Return r
               \<and> \<not> canMove r \<and> ctype r = COLLISION_SOLID \<and> tileHit r = c \<and> entityHit r = None"
    by (simp add: CheckAllCollisions_def in_bounds_def tile_rules_default)
next
  assume a: "in_bounds m newX newY \<and> read_at (collision m) (newY * width m + newX) = Some c"
    and k: "rule_kind c \<noteq> COLLISION_SOLID \<and> \<not> occupied es mover newX newY"
  from k have g: "GetEntityAt es newX newY (Entity.id mover) = None"
    by (simp add: GetEntityAt_None occupied_def)
  from a k g show "\<exists>r. CheckAllCollisions m es mover newX newY = Return r
               \<and> canMove r \<and> ctype r = rule_kind c \<and> entityHit r = None"
    by (cases "rule_kind c = COLLISION_NONE")
       (simp_all add: CheckAllCollisions_def in_bounds_def tile_rules_default)
next
  assume a: "in_bounds m newX newY \<and> read_at (collision m) (newY * width m + newX) = Some c"
    and k: "rule_kind c \<noteq> COLLISION_SOLID \<and> occupied es mover newX newY"
  from k obtain hit where g: "GetEntityAt es newX newY (Entity.id mover) = Some hit"
    using GetEntityAt_None [of es newX newY "Entity.id mover"] by (auto simp: occupied_def)
  note h = GetEntityAt_Some [OF g]
  from a k g h show "\<exists>r hit. CheckAllCollisions m es mover newX newY = Return r
               \<and> \<not> canMove r \<and> ctype r = COLLISION_SOLID \<and> entityHit r = Some hit
               \<and> hit \<in> set es \<and> isAlive hit \<and> isSolid hit
               \<and> Entity.x hit = newX \<and> Entity.y hit = newY \<and> Entity.id hit \<noteq> Entity.id mover"
    by (cases "rule_kind c = COLLISION_NONE")
       (simp_all add: CheckAllCollisions_def in_bounds_def tile_rules_default)
qed

theorem CheckAllCollisions_order_witness:
  "\<not> in_bounds (row_map ''.#~='') 4 0
   \<and> (\<exists>r. CheckAllCollisions (row_map ''.#~='') [entity_at 1 0 0, entity_at 2 3 0] (entity_at 1 0 0) 4 0 = Return r
          \<and> \<not> canMove r \<and> ctype r = COLLISION_SOLID)
   \<and> in_bounds (row_map ''.#~='') 1 0
   \<and> (\<exists>r. CheckAllCollisions (row_map ''.#~='') [entity_at 1 0 0, entity_at 2 3 0] (entity_at 1 0 0) 1 0 = Return r
          \<and> \<not> canMove r \<and> tileHit r = CHR ''#'')
   \<and> \<not> occupied [entity_at 1 0 0, entity_at 2 3 0] (entity_at 1 0 0) 2 0
   \<and> (\<exists>r. CheckAllCollisions (row_map ''.#~='') [entity_at 1 0 0, entity_at 2 3 0] (entity_at 1 0 0) 2 0 = Return r
          \<and> canMove r \<and> ctype r = COLLISION_SLOW)
   \<and> occupied [entity_at 1 0 0, entity_at 2 3 0] (entity_at 1 0 0) 3 0
   \<and> (\<exists>r. CheckAllCollisions (row_map ''.#~='') [entity_at 1 0 0, entity_at 2 3 0] (entity_at 1 0 0) 3 0 = Return r
          \<and> \<not> canMove r \<and> ctype r = COLLISION_SOLID \<and> entityHit r = Some (entity_at 2 3 0))"
  using CheckAllCollisions_order [of "row_map ''.#~=''" 4 0 "[entity_at 1 0 0, entity_at 2 3 0]" "entity_at 1 0 0" "CHR ''.''"]
        CheckAllCollisions_order [of "row_map ''.#~=''" 1 0 "[entity_at 1 0 0, entity_at 2 3 0]" "entity_at 1 0 0" "CHR ''#''"]
        CheckAllCollisions_order [of "row_map ''.#~=''" 2 0 "[entity_at 1 0 0, entity_at 2 3 0]" "entity_at 1 0 0" "CHR ''~''"]
        CheckAllCollisions_order [of "row_map ''.#~=''" 3 0 "[entity_at 1 0 0, entity_at 2 3 0]" "entity_at 1 0 0" "CHR ''=''"]
  by (auto simp: in_bounds_def row_map_def entity_at_def occupied_def read_at_def rule_kind_values)

section \<open>The line walk and the occlusion scan\<close>

lemma line_inv_at_target:
  "line_inv tx ty dx dy sx sy a b s \<Longrightarrow> (fst s = tx \<and> fst (snd s) = ty) \<longleftrightarrow> (a = 0 \<and> b = 0)"
  by (auto simp: line_inv_def)

lemma line_inv_step:
  assumes "line_inv tx ty dx dy sx sy a b s" and "a + b > 0"
  shows "\<exists>a' b'. line_inv tx ty dx dy sx sy a' b' (line_step dx dy sx sy s) \<and> a' + b' < a + b"
proof -
  obtain cx cy err where s: "s = (cx, cy, err)" by (cases s) auto
  from assms(1) have inv: "0 \<le> a" "a \<le> dx" "0 \<le> b" "b \<le> dy" "sx = 1 \<or> sx = - 1" "sy = 1 \<or> sy = - 1"
    "cx = tx - sx * a" "cy = ty - sy * b" "err = dx - dy + a * dy - b * dx"
    by (auto simp: line_inv_def s)
  have dpos: "dx + dy > 0" using assms(2) inv by linarith
  with assms(1) have rng: "dx - 3 * dy < 2 * err" "2 * err < 3 * dx - dy"
    by (auto simp: line_inv_def s)
  have xstep: "a > 0" if e: "2 * err > - dy"
  proof (rule ccontr)
    assume "\<not> a > 0"
    then have a0: "a = 0" using inv by simp
    then have b1: "b \<ge> 1" using assms(2) by simp
    have "b * dx \<ge> 1 * dx" using b1 inv by (intro mult_right_mono) auto
    then show False using e inv a0 by simp
  qed
  have ystep: "b > 0" if e: "2 * err < dx"
  proof (rule ccontr)
    assume "\<not> b > 0"
    then have b0: "b = 0" using inv by simp
    then have a1: "a \<ge> 1" using assms(2) by simp
    have "a * dy \<ge> 1 * dy" using a1 inv by (intro mult_right_mono) auto
    then show False using e inv b0 by simp
  qed
  have some: "2 * err > - dy \<or> 2 * err < dx"
    using dpos by linarith
  let ?a' = "if 2 * err > - dy then a - 1 else a"
  let ?b' = "if 2 * err < dx then b - 1 else b"
  have dx0: "0 \<le> dx" and dy0: "0 \<le> dy" using inv by linarith+
  have "line_inv tx ty dx dy sx sy ?a' ?b' (line_step dx dy sx sy s)"
    using inv xstep ystep rng dpos dx0 dy0
    by (auto simp: line_inv_def line_step_def s Let_def algebra_simps)
  moreover have "?a' + ?b' < a + b"
    using some by auto
  ultimately show ?thesis by blast
qed

lemma line_inv_init:
  "line_inv tx ty \<bar>tx - ox\<bar> \<bar>ty - oy\<bar> (if ox < tx then 1 else - 1) (if oy < ty then 1 else - 1)
     \<bar>tx - ox\<bar> \<bar>ty - oy\<bar> (ox, oy, \<bar>tx - ox\<bar> - \<bar>ty - oy\<bar>)"
  by (auto simp: line_inv_def)

lemma sight_loop_scan:
  "line_inv tx ty dx dy sx sy a b (cx, cy, err) \<Longrightarrow> nat (a + b) \<le> n \<Longrightarrow>
   sight_loop tmap w tx ty dx dy sx sy cx cy err
     = Some (scan_tiles tmap w (scan_cells n tx ty dx dy sx sy (cx, cy, err)))"
proof (induction n arbitrary: a b cx cy err)
  case 0
  then have "a = 0 \<and> b = 0" by (auto simp: line_inv_def)
  with 0 have "cx = tx \<and> cy = ty" by (auto simp: line_inv_def)
  then show ?case by (subst sight_loop.simps) simp
next
  case (Suc n)
  show ?case
  proof (cases "cx \<noteq> tx \<or> cy \<noteq> ty")
    case False
    then show ?thesis by (subst sight_loop.simps) simp
  next
    case True
    then have pos: "a + b > 0"
      using line_inv_at_target [OF Suc.prems(1)] Suc.prems(1) by (auto simp: line_inv_def)
    obtain a' b' where st: "line_inv tx ty dx dy sx sy a' b' (line_step dx dy sx sy (cx, cy, err))"
      and lt: "a' + b' < a + b"
      using line_inv_step [OF Suc.prems(1) pos] by blast
    obtain cx' cy' err' where ls: "line_step dx dy sx sy (cx, cy, err) = (cx', cy', err')"
      by (cases "line_step dx dy sx sy (cx, cy, err)") auto
    have n: "nat (a' + b') \<le> n" using lt Suc.prems(2) by linarith
    have ih: "sight_loop tmap w tx ty dx dy sx sy cx' cy' err'
       = Some (scan_tiles tmap w (scan_cells n tx ty dx dy sx sy (cx', cy', err')))"
      using Suc.IH [OF st [unfolded ls] n] .
    have unfold: "sight_loop tmap w tx ty dx dy sx sy cx cy err =
       (case read_at tmap (cy * w + cx) of None \<Rightarrow> Some OutOfBounds
        | Some c \<Rightarrow> if c = CHR ''#'' then Some (Return False)
                    else sight_loop tmap w tx ty dx dy sx sy cx' cy' err')"
      using True ls
      by (subst sight_loop.simps) (auto simp: line_step_def Let_def split: option.splits)
    show ?thesis
      using True by (simp add: unfold ih ls split: option.splits)
  qed
qed

lemma CanSeePosition_scan:
  "CanSeePosition e tx ty tmap w =
     Some (if ManhattanDistance (Enemy.x e) (Enemy.y e) tx ty > sightRange e then Return False
           else scan_tiles tmap w (sight_cells (Enemy.x e) (Enemy.y e) tx ty))"
proof -
  have "sight_loop tmap w tx ty \<bar>tx - Enemy.x e\<bar> \<bar>ty - Enemy.y e\<bar>
          (if Enemy.x e < tx then 1 else - 1) (if Enemy.y e < ty then 1 else - 1)
          (Enemy.x e) (Enemy.y e) (\<bar>tx - Enemy.x e\<bar> - \<bar>ty - Enemy.y e\<bar>)
        = Some (scan_tiles tmap w (sight_cells (Enemy.x e) (Enemy.y e) tx ty))"
    unfolding sight_cells_def Let_def
    by (rule sight_loop_scan [OF line_inv_init]) simp
  then show ?thesis
    by (simp add: CanSeePosition_def Let_def)
qed

lemma scan_cells_inv:
  "line_inv tx ty dx dy sx sy a b s \<Longrightarrow> (px, py) \<in> set (scan_cells n tx ty dx dy sx sy s) \<Longrightarrow>
   \<exists>a' b'. 0 \<le> a' \<and> a' \<le> dx \<and> 0 \<le> b' \<and> b' \<le> dy \<and> a' + b' > 0
      \<and> px = tx - sx * a' \<and> py = ty - sy * b'
      \<and> \<bar>2 * (a' * dy - b' * dx)\<bar> < dx + dy"
proof (induction n arbitrary: a b s)
  case 0
  then show ?case by simp
next
  case (Suc n)
  from Suc.prems(2) have nt: "fst s \<noteq> tx \<or> fst (snd s) \<noteq> ty"
    by (auto split: if_splits)
  then have pos: "a + b > 0"
    using line_inv_at_target [OF Suc.prems(1)] Suc.prems(1) by (auto simp: line_inv_def)
  from Suc.prems(2) nt consider "(px, py) = (fst s, fst (snd s))"
    | "(px, py) \<in> set (scan_cells n tx ty dx dy sx sy (line_step dx dy sx sy s))"
    by auto
  then show ?case
  proof cases
    case 1
    have "dx + dy > 0" using pos Suc.prems(1) by (auto simp: line_inv_def)
    then have "\<bar>2 * (a * dy - b * dx)\<bar> < dx + dy"
      using Suc.prems(1) by (auto simp: line_inv_def)
    with 1 pos Suc.prems(1) show ?thesis
      by (intro exI [of _ a] exI [of _ b]) (auto simp: line_inv_def)
  next
    case 2
    obtain a' b' where "line_inv tx ty dx dy sx sy a' b' (line_step dx dy sx sy s)"
      using line_inv_step [OF Suc.prems(1) pos] by blast
    from Suc.IH [OF this 2] show ?thesis .
  qed
qed

lemma sight_cells_crosses:
  assumes "(px, py) \<in> set (sight_cells ox oy tx ty)"
  shows "(px, py) \<noteq> (tx, ty) \<and> segment_crosses ox oy tx ty px py"
proof -
  let ?dx = "\<bar>tx - ox\<bar>" and ?dy = "\<bar>ty - oy\<bar>"
  let ?sx = "if ox < tx then 1 else - 1 :: int" and ?sy = "if oy < ty then 1 else - 1 :: int"
  from assms have "(px, py) \<in> set (scan_cells (nat (?dx + ?dy)) tx ty ?dx ?dy ?sx ?sy (ox, oy, ?dx - ?dy))"
    by (simp add: sight_cells_def Let_def)
  from scan_cells_inv [OF line_inv_init this]
  obtain a b where ab: "0 \<le> a" "a \<le> ?dx" "0 \<le> b" "b \<le> ?dy" "a + b > 0"
    "px = tx - ?sx * a" "py = ty - ?sy * b" "\<bar>2 * (a * ?dy - b * ?dx)\<bar> < ?dx + ?dy"
    by blast
  have ne: "(px, py) \<noteq> (tx, ty)" using ab by auto
  have box: "min ox tx \<le> px \<and> px \<le> max ox tx \<and> min oy ty \<le> py \<and> py \<le> max oy ty"
    using ab by (auto split: if_splits)
  have sxdx: "tx - ox = ?sx * ?dx" and sydy: "ty - oy = ?sy * ?dy" by auto
  have "(tx - ox) * (py - oy) - (ty - oy) * (px - ox)
      = (tx - ox) * (py - ty) - (ty - oy) * (px - tx)"
    by (simp add: algebra_simps)
  also have "\<dots> = ?sx * ?dx * (- ?sy * b) - ?sy * ?dy * (- ?sx * a)"
    unfolding ab(6,7) sxdx [symmetric] sydy [symmetric] by (simp add: algebra_simps)
  also have "\<dots> = ?sx * ?sy * (a * ?dy - b * ?dx)"
    by (simp add: algebra_simps)
  finally have cross: "(tx - ox) * (py - oy) - (ty - oy) * (px - ox)
      = ?sx * ?sy * (a * ?dy - b * ?dx)" .
  have "?sx * ?sy = 1 \<or> ?sx * ?sy = - 1" by auto
  then have "\<bar>2 * (?sx * ?sy * (a * ?dy - b * ?dx))\<bar> = \<bar>2 * (a * ?dy - b * ?dx)\<bar>"
    by (elim disjE) (simp_all only: mult_1 mult_minus1 mult_minus_right abs_minus mult_minus_left)
  then have "\<bar>2 * ((tx - ox) * (py - oy) - (ty - oy) * (px - ox))\<bar> < ?dx + ?dy"
    using ab(8) cross by simp
  with box ne show ?thesis by (simp add: segment_crosses_def)
qed

lemma segment_crosses_on_segment:
  "segment_crosses ax ay bx by px py \<Longrightarrow> on_segment ax ay bx by px py"
  by (simp add: segment_crosses_def on_segment_def)

lemma sight_cells_inv:
  assumes "(px, py) \<in> set (sight_cells ox oy tx ty)"
  shows "(px, py) \<noteq> (tx, ty) \<and> on_segment ox oy tx ty px py"
  using sight_cells_crosses [OF assms] segment_crosses_on_segment by blast

lemma segment_crosses_commute:
  "segment_crosses ax ay bx by px py = segment_crosses bx by ax ay px py"
proof -
  have "(ax - bx) * (py - by) - (ay - by) * (px - bx)
      = - ((bx - ax) * (py - ay) - (by - ay) * (px - ax))"
    by (simp add: algebra_simps)
  then have "\<bar>2 * ((ax - bx) * (py - by) - (ay - by) * (px - bx))\<bar>
      = \<bar>2 * ((bx - ax) * (py - ay) - (by - ay) * (px - ax))\<bar>"
    by simp
  moreover have "\<bar>ax - bx\<bar> + \<bar>ay - by\<bar> = \<bar>bx - ax\<bar> + \<bar>by - ay\<bar>" by simp
  ultimately show ?thesis
    unfolding segment_crosses_def by (simp only: min.commute max.commute)
qed

lemma scan_tiles_clear:
  "(\<forall>c \<in> set cs. \<exists>t. read_at tmap (snd c * w + fst c) = Some t \<and> t \<noteq> CHR ''#'')
     \<Longrightarrow> scan_tiles tmap w cs = Return True"
  by (induction cs) auto

lemma scan_tiles_wall_first:
  "read_at tmap (snd c * w + fst c) = Some CHR ''#'' \<Longrightarrow> scan_tiles tmap w (c # cs) = Return False"
  by simp

lemma sight_cells_head:
  assumes "(ox, oy) \<noteq> (tx, ty)"
  shows "\<exists>rest. sight_cells ox oy tx ty = (ox, oy) # rest"
proof -
  have "nat (\<bar>tx - ox\<bar> + \<bar>ty - oy\<bar>) > 0" using assms by auto
  then obtain n where n: "nat (\<bar>tx - ox\<bar> + \<bar>ty - oy\<bar>) = Suc n"
    by (cases "nat (\<bar>tx - ox\<bar> + \<bar>ty - oy\<bar>)") auto
  show ?thesis using assms by (auto simp: sight_cells_def Let_def n)
qed

lemma sight_cells_self: "sight_cells ox oy ox oy = []"
  by (simp add: sight_cells_def)

lemma flat_index_inj:
  assumes "py * w + px = ty * w + tx" "0 \<le> px" "px < w" "0 \<le> tx" "tx < (w::int)"
  shows "px = tx \<and> py = ty"
proof -
  have "py = ty"
  proof (rule ccontr)
    assume ne: "py \<noteq> ty"
    from assms(1) have eq: "(py - ty) * w = tx - px" by (simp add: algebra_simps)
    have "\<bar>py - ty\<bar> \<ge> 1" using ne by simp
    then have "\<bar>py - ty\<bar> * w \<ge> 1 * w" using assms by (intro mult_right_mono) auto
    moreover have "\<bar>(py - ty) * w\<bar> = \<bar>py - ty\<bar> * w" using assms by (simp add: abs_mult)
    ultimately have "\<bar>tx - px\<bar> \<ge> w" using eq by simp
    then show False using assms by linarith
  qed
  with assms(1) show ?thesis by simp
qed

lemma read_at_update_other:
  "i \<noteq> int k \<Longrightarrow> read_at (buf[k := v]) i = read_at buf i"
  by (auto simp: read_at_def)

lemma scan_tiles_update_other:
  "(\<forall>c \<in> set cs. snd c * w + fst c \<noteq> int k) \<Longrightarrow> scan_tiles (tmap[k := v]) w cs = scan_tiles tmap w cs"
  by (induction cs) (auto simp: read_at_update_other split: option.splits)

lemma sight_cells_index_ne_target:
  assumes "(px, py) \<in> set (sight_cells ox oy tx ty)"
    and "0 \<le> ox" "ox < w" "0 \<le> tx" "tx < w" "0 \<le> oy" "0 \<le> ty"
  shows "py * w + px \<noteq> int (nat (ty * w + tx))"
proof -
  from sight_cells_inv [OF assms(1)] have ne: "(px, py) \<noteq> (tx, ty)"
    and box: "min ox tx \<le> px" "px \<le> max ox tx"
    by (auto simp: on_segment_def)
  have "0 \<le> ty * w + tx" using assms by simp
  then have "int (nat (ty * w + tx)) = ty * w + tx" by simp
  moreover have "0 \<le> px" "px < w" using box assms by linarith+
  then have "py * w + px \<noteq> ty * w + tx"
    using flat_index_inj [of py w px ty tx] ne assms by auto
  ultimately show ?thesis by simp
qed

lemma CanSeePosition_update_target:
  assumes "0 \<le> Enemy.x e" "Enemy.x e < w" "0 \<le> tx" "tx < w" "0 \<le> Enemy.y e" "0 \<le> ty"
  shows "CanSeePosition e tx ty (tmap[nat (ty * w + tx) := c]) w = CanSeePosition e tx ty tmap w"
proof -
  have "\<forall>cell \<in> set (sight_cells (Enemy.x e) (Enemy.y e) tx ty).
          snd cell * w + fst cell \<noteq> int (nat (ty * w + tx))"
    using sight_cells_index_ne_target [OF _ assms] by auto
  then show ?thesis
    by (simp add: CanSeePosition_scan scan_tiles_update_other)
qed


lemma scan_tiles_stops:
  "(\<forall>c \<in> set pre. \<exists>t. read_at tmap (snd c * w + fst c) = Some t \<and> t \<noteq> CHR ''#'')
   \<Longrightarrow> read_at tmap (snd c * w + fst c) = Some CHR ''#''
   \<Longrightarrow> scan_tiles tmap w (pre @ c # post) = Return False"
  by (induction pre) auto

text \<open>
  Claim C2. \<open>CanSeePosition\<close> always returns. When the Manhattan distance from the
  observer to the target exceeds \<open>sightRange\<close> it returns false. Within range its answer
  is the scan of the tiles of the line from the observer towards the target, in order:
  false at the first wall \<open>#\<close>, true when none of them is a wall. The tiles of the line
  lie on the segment from the observer to the target and the target is not one of them.
  On the open 5 by 5 map an observer at (0,0) with sight range 10 sees (4,4); with a
  wall at (2,2) it does not.
\<close>

theorem CanSeePosition_contract:
  "(ManhattanDistance (Enemy.x e) (Enemy.y e) tx ty > sightRange e \<longrightarrow>
      CanSeePosition e tx ty tmap w = Some (Return False))
   \<and> (ManhattanDistance (Enemy.x e) (Enemy.y e) tx ty \<le> sightRange e \<longrightarrow>
      CanSeePosition e tx ty tmap w
        = Some (scan_tiles tmap w (sight_cells (Enemy.x e) (Enemy.y e) tx ty))
      \<and> (\<forall>pre c post.
            sight_cells (Enemy.x e) (Enemy.y e) tx ty = pre @ c # post
            \<and> (\<forall>c' \<in> set pre. \<exists>t. read_at tmap (snd c' * w + fst c') = Some t \<and> t \<noteq> CHR ''#'')
            \<and> read_at tmap (snd c * w + fst c) = Some CHR ''#''
            \<longrightarrow> CanSeePosition e tx ty tmap w = Some (Return False))
      \<and> ((\<forall>c \<in> set (sight_cells (Enemy.x e) (Enemy.y e) tx ty).
             \<exists>t. read_at tmap (snd c * w + fst c) = Some t \<and> t \<noteq> CHR ''#'')
           \<longrightarrow> CanSeePosition e tx ty tmap w = Some (Return True)))
   \<and> (\<forall>c \<in> set (sight_cells (Enemy.x e) (Enemy.y e) tx ty).
          c \<noteq> (tx, ty) \<and> on_segment (Enemy.x e) (Enemy.y e) tx ty (fst c) (snd c))
   \<and> CanSeePosition (e\<lparr>Enemy.x := 0, Enemy.y := 0, sightRange := 10\<rparr>) 4 4 (open_map 25) 5
        = Some (Return True)
   \<and> CanSeePosition (e\<lparr>Enemy.x := 0, Enemy.y := 0, sightRange := 10\<rparr>) 4 4
        ((open_map 25)[nat (2 * 5 + 2) := CHR ''#'']) 5
        = Some (Return False)"
proof (intro conjI impI allI ballI)
  fix c assume "c \<in> set (sight_cells (Enemy.x e) (Enemy.y e) tx ty)"
  then have "(fst c, snd c) \<in> set (sight_cells (Enemy.x e) (Enemy.y e) tx ty)" by simp
  from sight_cells_inv [OF this]
  show "c \<noteq> (tx, ty)" and "on_segment (Enemy.x e) (Enemy.y e) tx ty (fst c) (snd c)"
    by (simp_all add: prod_eq_iff)
next
  assume "ManhattanDistance (Enemy.x e) (Enemy.y e) tx ty > sightRange e"
  then show "CanSeePosition e tx ty tmap w = Some (Return False)"
    by (simp add: CanSeePosition_scan)
next
  assume "ManhattanDistance (Enemy.x e) (Enemy.y e) tx ty \<le> sightRange e"
  then show "CanSeePosition e tx ty tmap w
        = Some (scan_tiles tmap w (sight_cells (Enemy.x e) (Enemy.y e) tx ty))"
    by (simp add: CanSeePosition_scan)
next
  fix pre c post
  assume r: "ManhattanDistance (Enemy.x e) (Enemy.y e) tx ty \<le> sightRange e"
    and h: "sight_cells (Enemy.x e) (Enemy.y e) tx ty = pre @ c # post
            \<and> (\<forall>c' \<in> set pre. \<exists>t. read_at tmap (snd c' * w + fst c') = Some t \<and> t \<noteq> CHR ''#'')
            \<and> read_at tmap (snd c * w + fst c) = Some CHR ''#''"
  from h have "scan_tiles tmap w (pre @ c # post) = Return False"
    by (intro scan_tiles_stops) auto
  with r h show "CanSeePosition e tx ty tmap w = Some (Return False)"
    by (simp add: CanSeePosition_scan)
next
  assume r: "ManhattanDistance (Enemy.x e) (Enemy.y e) tx ty \<le> sightRange e"
    and h: "\<forall>c \<in> set (sight_cells (Enemy.x e) (Enemy.y e) tx ty).
             \<exists>t. read_at tmap (snd c * w + fst c) = Some t \<and> t \<noteq> CHR ''#''"
  from scan_tiles_clear [OF h] r show "CanSeePosition e tx ty tmap w = Some (Return True)"
    by (simp add: CanSeePosition_scan)
next
  have "sight_cells 0 0 4 4 = [(0, 0), (1, 1), (2, 2), (3, 3)]"
    by code_simp
  then show "CanSeePosition (e\<lparr>Enemy.x := 0, Enemy.y := 0, sightRange := 10\<rparr>) 4 4 (open_map 25) 5
        = Some (Return True)"
    by (simp add: CanSeePosition_scan ManhattanDistance_def open_map_def read_at_def)
next
  have "sight_cells 0 0 4 4 = [(0, 0), (1, 1), (2, 2), (3, 3)]"
    by code_simp
  moreover have "(open_map 25)[nat (2 * 5 + 2) := CHR ''#''] = ''............#............''"
    by (simp add: open_map_def eval_nat_numeral)
  ultimately show "CanSeePosition (e\<lparr>Enemy.x := 0, Enemy.y := 0, sightRange := 10\<rparr>) 4 4
        ((open_map 25)[nat (2 * 5 + 2) := CHR ''#'']) 5
        = Some (Return False)"
    by (simp add: CanSeePosition_scan ManhattanDistance_def read_at_def)
qed

theorem CanSeePosition_contract_witness:
  "ManhattanDistance (Enemy.x (zombie_at 0 0)) (Enemy.y (zombie_at 0 0)) 4 4 > sightRange (zombie_at 0 0)
   \<and> CanSeePosition (zombie_at 0 0) 4 4 (open_map 25) 5 = Some (Return False)
   \<and> ManhattanDistance (Enemy.x (zombie_at 0 0)) (Enemy.y (zombie_at 0 0)) 2 2 \<le> sightRange (zombie_at 0 0)
   \<and> sight_cells (Enemy.x (zombie_at 0 0)) (Enemy.y (zombie_at 0 0)) 2 2 = [(0, 0)] @ (1, 1) # []
   \<and> CanSeePosition (zombie_at 0 0) 2 2 ''....#....'' 3 = Some (Return False)
   \<and> CanSeePosition (zombie_at 0 0) 2 2 ''........#'' 3 = Some (Return True)"
proof -
  have pos: "Enemy.x (zombie_at 0 0) = 0" "Enemy.y (zombie_at 0 0) = 0" "sightRange (zombie_at 0 0) = 5"
    by (simp_all add: zombie_at_def)
  have far: "ManhattanDistance (Enemy.x (zombie_at 0 0)) (Enemy.y (zombie_at 0 0)) 4 4 > sightRange (zombie_at 0 0)"
    by (simp add: pos ManhattanDistance_def)
  have near: "ManhattanDistance (Enemy.x (zombie_at 0 0)) (Enemy.y (zombie_at 0 0)) 2 2 \<le> sightRange (zombie_at 0 0)"
    by (simp add: pos ManhattanDistance_def)
  have cells: "sight_cells (Enemy.x (zombie_at 0 0)) (Enemy.y (zombie_at 0 0)) 2 2 = [(0, 0)] @ (1, 1) # []"
    unfolding pos by code_simp
  have a: "CanSeePosition (zombie_at 0 0) 4 4 (open_map 25) 5 = Some (Return False)"
    using CanSeePosition_contract [of "zombie_at 0 0" 4 4 "open_map 25" 5] far by blast
  have pre: "\<forall>c' \<in> set [(0 :: int, 0 :: int)]. \<exists>t. read_at ''....#....'' (snd c' * 3 + fst c') = Some t \<and> t \<noteq> CHR ''#''"
    by (simp add: read_at_def)
  have wall: "read_at ''....#....'' (snd (1 :: int, 1 :: int) * 3 + fst (1 :: int, 1 :: int)) = Some CHR ''#''"
    by (simp add: read_at_def)
  have b: "CanSeePosition (zombie_at 0 0) 2 2 ''....#....'' 3 = Some (Return False)"
    using CanSeePosition_contract [of "zombie_at 0 0" 2 2 "''....#....''" 3] near cells pre wall by blast
  have clear: "\<forall>c \<in> set (sight_cells (Enemy.x (zombie_at 0 0)) (Enemy.y (zombie_at 0 0)) 2 2).
      \<exists>t. read_at ''........#'' (snd c * 3 + fst c) = Some t \<and> t \<noteq> CHR ''#''"
    unfolding cells by (simp add: read_at_def)
  have c: "CanSeePosition (zombie_at 0 0) 2 2 ''........#'' 3 = Some (Return True)"
    using CanSeePosition_contract [of "zombie_at 0 0" 2 2 "''........#''" 3] near clear by blast
  from far near cells a b c show ?thesis by blast
qed


lemma segment_crosses_box:
  "segment_crosses ax ay bx by px py \<Longrightarrow>
     min ax bx \<le> px \<and> px \<le> max ax bx \<and> min ay by \<le> py \<and> py \<le> max ay by"
  by (simp add: segment_crosses_def)

lemma segment_crosses_diagonal:
  "segment_crosses 0 0 1 1 px py \<Longrightarrow> (px = 0 \<and> py = 0) \<or> (px = 1 \<and> py = 1)"
  unfolding segment_crosses_def by (simp add: min_def max_def) arith

text \<open>
  Claim C6. Let two observers with the same sight range stand at A and at B, and let no
  tile on the segment between A and B be a wall: every tile that the segment between the
  two centres passes through, the tiles of A and B included, is readable and is not
  \<open>#\<close>. Then \<open>CanSeePosition\<close> from A towards B returns what it returns from B
  towards A: true when B is within range of A, false otherwise. A wall that the segment
  only touches at a corner, as beside two diagonal neighbours, is not on the segment.
\<close>

theorem CanSeePosition_symmetric:
  "sightRange ea = sightRange eb
   \<and> (\<forall>px py. segment_crosses (Enemy.x ea) (Enemy.y ea) (Enemy.x eb) (Enemy.y eb) px py \<longrightarrow>
          (\<exists>t. read_at tmap (py * w + px) = Some t \<and> t \<noteq> CHR ''#''))
   \<longrightarrow> CanSeePosition ea (Enemy.x eb) (Enemy.y eb) tmap w
         = CanSeePosition eb (Enemy.x ea) (Enemy.y ea) tmap w
       \<and> CanSeePosition ea (Enemy.x eb) (Enemy.y eb) tmap w
         = Some (Return (ManhattanDistance (Enemy.x ea) (Enemy.y ea) (Enemy.x eb) (Enemy.y eb)
                           \<le> sightRange ea))"
proof (intro impI)
  assume h: "sightRange ea = sightRange eb
   \<and> (\<forall>px py. segment_crosses (Enemy.x ea) (Enemy.y ea) (Enemy.x eb) (Enemy.y eb) px py \<longrightarrow>
          (\<exists>t. read_at tmap (py * w + px) = Some t \<and> t \<noteq> CHR ''#''))"
  have ab: "\<forall>c \<in> set (sight_cells (Enemy.x ea) (Enemy.y ea) (Enemy.x eb) (Enemy.y eb)).
      \<exists>t. read_at tmap (snd c * w + fst c) = Some t \<and> t \<noteq> CHR ''#''"
  proof
    fix c assume "c \<in> set (sight_cells (Enemy.x ea) (Enemy.y ea) (Enemy.x eb) (Enemy.y eb))"
    then have "segment_crosses (Enemy.x ea) (Enemy.y ea) (Enemy.x eb) (Enemy.y eb) (fst c) (snd c)"
      using sight_cells_crosses [of "fst c" "snd c"] by simp
    with h show "\<exists>t. read_at tmap (snd c * w + fst c) = Some t \<and> t \<noteq> CHR ''#''" by blast
  qed
  have ba: "\<forall>c \<in> set (sight_cells (Enemy.x eb) (Enemy.y eb) (Enemy.x ea) (Enemy.y ea)).
      \<exists>t. read_at tmap (snd c * w + fst c) = Some t \<and> t \<noteq> CHR ''#''"
  proof
    fix c assume "c \<in> set (sight_cells (Enemy.x eb) (Enemy.y eb) (Enemy.x ea) (Enemy.y ea))"
    then have "segment_crosses (Enemy.x eb) (Enemy.y eb) (Enemy.x ea) (Enemy.y ea) (fst c) (snd c)"
      using sight_cells_crosses [of "fst c" "snd c"] by simp
    then have "segment_crosses (Enemy.x ea) (Enemy.y ea) (Enemy.x eb) (Enemy.y eb) (fst c) (snd c)"
      by (simp add: segment_crosses_commute)
    with h show "\<exists>t. read_at tmap (snd c * w + fst c) = Some t \<and> t \<noteq> CHR ''#''" by blast
  qed
  have d: "ManhattanDistance (Enemy.x eb) (Enemy.y eb) (Enemy.x ea) (Enemy.y ea)
         = ManhattanDistance (Enemy.x ea) (Enemy.y ea) (Enemy.x eb) (Enemy.y eb)"
    by (simp add: ManhattanDistance_def)
  show "CanSeePosition ea (Enemy.x eb) (Enemy.y eb) tmap w
         = CanSeePosition eb (Enemy.x ea) (Enemy.y ea) tmap w
       \<and> CanSeePosition ea (Enemy.x eb) (Enemy.y eb) tmap w
         = Some (Return (ManhattanDistance (Enemy.x ea) (Enemy.y ea) (Enemy.x eb) (Enemy.y eb)
                           \<le> sightRange ea))"
    using h by (auto simp: CanSeePosition_scan scan_tiles_clear [OF ab] scan_tiles_clear [OF ba] d)
qed

theorem CanSeePosition_symmetric_witness:
  "sightRange (zombie_at 0 0) = sightRange (zombie_at 2 1)
   \<and> CanSeePosition (zombie_at 0 0) 2 1 (open_map 6) 3 = Some (Return True)
   \<and> CanSeePosition (zombie_at 2 1) 0 0 (open_map 6) 3 = Some (Return True)
   \<and> sightRange (zombie_at 0 0) = sightRange (zombie_at 1 1)
   \<and> CanSeePosition (zombie_at 0 0) 1 1 ''.#..'' 2 = Some (Return True)
   \<and> CanSeePosition (zombie_at 1 1) 0 0 ''.#..'' 2 = Some (Return True)"
proof -
  have pos: "Enemy.x (zombie_at 0 0) = 0" "Enemy.y (zombie_at 0 0) = 0"
    "Enemy.x (zombie_at 2 1) = 2" "Enemy.y (zombie_at 2 1) = 1"
    "Enemy.x (zombie_at 1 1) = 1" "Enemy.y (zombie_at 1 1) = 1"
    "sightRange (zombie_at 0 0) = 5" "sightRange (zombie_at 2 1) = 5"
    "sightRange (zombie_at 1 1) = 5"
    by (simp_all add: zombie_at_def)
  have clear: "\<forall>px py. segment_crosses (Enemy.x (zombie_at 0 0)) (Enemy.y (zombie_at 0 0))
                  (Enemy.x (zombie_at 2 1)) (Enemy.y (zombie_at 2 1)) px py \<longrightarrow>
          (\<exists>t. read_at (open_map 6) (py * 3 + px) = Some t \<and> t \<noteq> CHR ''#'')"
  proof (intro allI impI)
    fix px py
    assume "segment_crosses (Enemy.x (zombie_at 0 0)) (Enemy.y (zombie_at 0 0))
                  (Enemy.x (zombie_at 2 1)) (Enemy.y (zombie_at 2 1)) px py"
    from segment_crosses_box [OF this] have "0 \<le> px" "px \<le> 2" "0 \<le> py" "py \<le> 1"
      by (simp_all add: pos)
    then have "0 \<le> py * 3 + px" "py * 3 + px < 6" by linarith+
    then show "\<exists>t. read_at (open_map 6) (py * 3 + px) = Some t \<and> t \<noteq> CHR ''#''"
      by (simp add: read_at_def open_map_def)
  qed
  have "CanSeePosition (zombie_at 0 0) 2 1 (open_map 6) 3
          = CanSeePosition (zombie_at 2 1) 0 0 (open_map 6) 3
        \<and> CanSeePosition (zombie_at 0 0) 2 1 (open_map 6) 3 = Some (Return True)"
    using CanSeePosition_symmetric [of "zombie_at 0 0" "zombie_at 2 1" "open_map 6" 3] clear
    by (auto simp: pos ManhattanDistance_def)
  then have far: "CanSeePosition (zombie_at 0 0) 2 1 (open_map 6) 3 = Some (Return True)"
    "CanSeePosition (zombie_at 2 1) 0 0 (open_map 6) 3 = Some (Return True)"
    by auto
  have corner: "\<forall>px py. segment_crosses (Enemy.x (zombie_at 0 0)) (Enemy.y (zombie_at 0 0))
                  (Enemy.x (zombie_at 1 1)) (Enemy.y (zombie_at 1 1)) px py \<longrightarrow>
          (\<exists>t. read_at ''.#..'' (py * 2 + px) = Some t \<and> t \<noteq> CHR ''#'')"
  proof (intro allI impI)
    fix px py
    assume "segment_crosses (Enemy.x (zombie_at 0 0)) (Enemy.y (zombie_at 0 0))
                  (Enemy.x (zombie_at 1 1)) (Enemy.y (zombie_at 1 1)) px py"
    then have "segment_crosses 0 0 1 1 px py" by (simp add: pos)
    from segment_crosses_diagonal [OF this]
    show "\<exists>t. read_at ''.#..'' (py * 2 + px) = Some t \<and> t \<noteq> CHR ''#''"
      by (auto simp: read_at_def)
  qed
  have "CanSeePosition (zombie_at 0 0) 1 1 ''.#..'' 2
          = CanSeePosition (zombie_at 1 1) 0 0 ''.#..'' 2
        \<and> CanSeePosition (zombie_at 0 0) 1 1 ''.#..'' 2 = Some (Return True)"
    using CanSeePosition_symmetric [of "zombie_at 0 0" "zombie_at 1 1" "''.#..''" 2] corner
    by (auto simp: pos ManhattanDistance_def)
  then have near: "CanSeePosition (zombie_at 0 0) 1 1 ''.#..'' 2 = Some (Return True)"
    "CanSeePosition (zombie_at 1 1) 0 0 ''.#..'' 2 = Some (Return True)"
    by auto
  from far near show ?thesis by (simp add: pos)
qed

text \<open>
  The hypothesis is on the segment, not on one rasterised line: the walk from A to B and
  the walk from B to A can visit different tiles, all of them passed through by the
  segment. With a wall at (1,1), which the segment from (0,0) to (2,1) passes through,
  (0,0) sees (2,1) and (2,1) does not see (0,0).
\<close>

lemma raster_lines_differ:
  "sight_cells 0 0 2 1 = [(0, 0), (1, 0)] \<and> sight_cells 2 1 0 0 = [(2, 1), (1, 1)]
   \<and> segment_crosses 0 0 2 1 1 0 \<and> segment_crosses 0 0 2 1 1 1
   \<and> CanSeePosition (zombie_at 0 0) 2 1 ''....#.'' 3 = Some (Return True)
   \<and> CanSeePosition (zombie_at 2 1) 0 0 ''....#.'' 3 = Some (Return False)"
proof -
  have c: "sight_cells 0 0 2 1 = [(0, 0), (1, 0)]" "sight_cells 2 1 0 0 = [(2, 1), (1, 1)]"
    by code_simp+
  have s: "segment_crosses 0 0 2 1 1 0" "segment_crosses 0 0 2 1 1 1"
    by (simp_all add: segment_crosses_def)
  from c s show ?thesis
    by (simp add: CanSeePosition_scan zombie_at_def ManhattanDistance_def read_at_def)
qed

text \<open>
  Beside two diagonal neighbours the segment touches the two other tiles of the square
  at a corner only: they are not passed through, and the walk does not visit them.
\<close>

lemma corner_tiles_not_crossed:
  "\<not> segment_crosses 0 0 1 1 1 0 \<and> \<not> segment_crosses 0 0 1 1 0 1
   \<and> sight_cells 0 0 1 1 = [(0, 0)] \<and> sight_cells 1 1 0 0 = [(1, 1)]"
proof -
  have c: "sight_cells 0 0 1 1 = [(0, 0)]" "sight_cells 1 1 0 0 = [(1, 1)]"
    by code_simp+
  then show ?thesis by (simp add: segment_crosses_def)
qed


text \<open>
  Claim C10. For a target within range, the occlusion scan of \<open>CanSeePosition\<close> reads
  exactly the tiles of the line walk from the observer towards the target: the target's
  tile is not among them, the observer's own tile is the first of them when the target
  is another position. So a wall on the target's tile never blocks sight when the rest
  of the line is clear (writing \<open>#\<close> on the target's tile leaves the answer unchanged);
  an observer standing on a wall sees no position other than its own; and its own
  position, which is within range when the sight range is not negative, it always sees.
\<close>

theorem CanSeePosition_scans_line_without_target:
  "(ManhattanDistance (Enemy.x e) (Enemy.y e) tx ty \<le> sightRange e \<longrightarrow>
      CanSeePosition e tx ty tmap w
        = Some (scan_tiles tmap w (sight_cells (Enemy.x e) (Enemy.y e) tx ty)))
   \<and> (tx, ty) \<notin> set (sight_cells (Enemy.x e) (Enemy.y e) tx ty)
   \<and> ((Enemy.x e, Enemy.y e) \<noteq> (tx, ty) \<longrightarrow>
        (\<exists>rest. sight_cells (Enemy.x e) (Enemy.y e) tx ty = (Enemy.x e, Enemy.y e) # rest))
   \<and> (ManhattanDistance (Enemy.x e) (Enemy.y e) tx ty \<le> sightRange e
        \<and> (\<forall>c \<in> set (sight_cells (Enemy.x e) (Enemy.y e) tx ty).
              \<exists>t. read_at tmap (snd c * w + fst c) = Some t \<and> t \<noteq> CHR ''#'')
        \<longrightarrow> CanSeePosition e tx ty tmap w = Some (Return True))
   \<and> (0 \<le> Enemy.x e \<and> Enemy.x e < w \<and> 0 \<le> tx \<and> tx < w \<and> 0 \<le> Enemy.y e \<and> 0 \<le> ty
        \<longrightarrow> CanSeePosition e tx ty (tmap[nat (ty * w + tx) := CHR ''#'']) w
              = CanSeePosition e tx ty tmap w)
   \<and> (read_at tmap (Enemy.y e * w + Enemy.x e) = Some CHR ''#'' \<and> (tx, ty) \<noteq> (Enemy.x e, Enemy.y e)
        \<longrightarrow> CanSeePosition e tx ty tmap w = Some (Return False))
   \<and> (0 \<le> sightRange e \<longrightarrow>
        CanSeePosition e (Enemy.x e) (Enemy.y e) tmap w = Some (Return True))"
proof (intro conjI impI)
  assume "ManhattanDistance (Enemy.x e) (Enemy.y e) tx ty \<le> sightRange e"
  then show "CanSeePosition e tx ty tmap w
        = Some (scan_tiles tmap w (sight_cells (Enemy.x e) (Enemy.y e) tx ty))"
    by (simp add: CanSeePosition_scan)
next
  show "(tx, ty) \<notin> set (sight_cells (Enemy.x e) (Enemy.y e) tx ty)"
    using sight_cells_inv [of tx ty "Enemy.x e" "Enemy.y e" tx ty] by blast
next
  assume "(Enemy.x e, Enemy.y e) \<noteq> (tx, ty)"
  then show "\<exists>rest. sight_cells (Enemy.x e) (Enemy.y e) tx ty = (Enemy.x e, Enemy.y e) # rest"
    by (rule sight_cells_head)
next
  assume h: "ManhattanDistance (Enemy.x e) (Enemy.y e) tx ty \<le> sightRange e
        \<and> (\<forall>c \<in> set (sight_cells (Enemy.x e) (Enemy.y e) tx ty).
              \<exists>t. read_at tmap (snd c * w + fst c) = Some t \<and> t \<noteq> CHR ''#'')"
  then have "scan_tiles tmap w (sight_cells (Enemy.x e) (Enemy.y e) tx ty) = Return True"
    by (intro scan_tiles_clear) blast
  with h show "CanSeePosition e tx ty tmap w = Some (Return True)"
    by (simp add: CanSeePosition_scan)
next
  assume "0 \<le> Enemy.x e \<and> Enemy.x e < w \<and> 0 \<le> tx \<and> tx < w \<and> 0 \<le> Enemy.y e \<and> 0 \<le> ty"
  then show "CanSeePosition e tx ty (tmap[nat (ty * w + tx) := CHR ''#'']) w
              = CanSeePosition e tx ty tmap w"
    by (intro CanSeePosition_update_target) auto
next
  assume h: "read_at tmap (Enemy.y e * w + Enemy.x e) = Some CHR ''#'' \<and> (tx, ty) \<noteq> (Enemy.x e, Enemy.y e)"
  then obtain rest where "sight_cells (Enemy.x e) (Enemy.y e) tx ty = (Enemy.x e, Enemy.y e) # rest"
    using sight_cells_head [of "Enemy.x e" "Enemy.y e" tx ty] by auto
  with h show "CanSeePosition e tx ty tmap w = Some (Return False)"
    by (simp add: CanSeePosition_scan)
next
  assume "0 \<le> sightRange e"
  then show "CanSeePosition e (Enemy.x e) (Enemy.y e) tmap w = Some (Return True)"
    by (simp add: CanSeePosition_scan sight_cells_self ManhattanDistance_def)
qed

theorem CanSeePosition_scans_line_without_target_witness:
  "ManhattanDistance (Enemy.x (zombie_at 0 0)) (Enemy.y (zombie_at 0 0)) 2 2 \<le> sightRange (zombie_at 0 0)
   \<and> sight_cells (Enemy.x (zombie_at 0 0)) (Enemy.y (zombie_at 0 0)) 2 2 = [(0, 0), (1, 1)]
   \<and> (open_map 9)[nat (2 * 3 + 2) := CHR ''#''] = ''........#''
   \<and> CanSeePosition (zombie_at 0 0) 2 2 ''........#'' 3 = Some (Return True)
   \<and> read_at ''#........'' (Enemy.y (zombie_at 0 0) * 3 + Enemy.x (zombie_at 0 0)) = Some CHR ''#''
   \<and> CanSeePosition (zombie_at 0 0) 0 1 ''#........'' 3 = Some (Return False)
   \<and> CanSeePosition (zombie_at 0 0) 0 0 ''#........'' 3 = Some (Return True)"
proof -
  have pos: "Enemy.x (zombie_at 0 0) = 0" "Enemy.y (zombie_at 0 0) = 0" "sightRange (zombie_at 0 0) = 5"
    by (simp_all add: zombie_at_def)
  have near: "ManhattanDistance (Enemy.x (zombie_at 0 0)) (Enemy.y (zombie_at 0 0)) 2 2 \<le> sightRange (zombie_at 0 0)"
    by (simp add: pos ManhattanDistance_def)
  have cells: "sight_cells (Enemy.x (zombie_at 0 0)) (Enemy.y (zombie_at 0 0)) 2 2 = [(0, 0), (1, 1)]"
    unfolding pos by code_simp
  have upd: "(open_map 9)[nat (2 * 3 + 2) := CHR ''#''] = ''........#''"
    by (simp add: open_map_def eval_nat_numeral)
  have clear: "\<forall>c \<in> set (sight_cells (Enemy.x (zombie_at 0 0)) (Enemy.y (zombie_at 0 0)) 2 2).
      \<exists>t. read_at (open_map 9) (snd c * 3 + fst c) = Some t \<and> t \<noteq> CHR ''#''"
    unfolding cells by (simp add: read_at_def open_map_def)
  have open_sees: "CanSeePosition (zombie_at 0 0) 2 2 (open_map 9) 3 = Some (Return True)"
    using CanSeePosition_scans_line_without_target [of "zombie_at 0 0" 2 2 "open_map 9" 3] near clear
    by blast
  have "CanSeePosition (zombie_at 0 0) 2 2 ((open_map 9)[nat (2 * 3 + 2) := CHR ''#'']) 3
      = CanSeePosition (zombie_at 0 0) 2 2 (open_map 9) 3"
    using CanSeePosition_scans_line_without_target [of "zombie_at 0 0" 2 2 "open_map 9" 3]
    by (simp add: pos)
  with open_sees upd have a: "CanSeePosition (zombie_at 0 0) 2 2 ''........#'' 3 = Some (Return True)"
    by simp
  have wall: "read_at ''#........'' (Enemy.y (zombie_at 0 0) * 3 + Enemy.x (zombie_at 0 0)) = Some CHR ''#''"
    by (simp add: pos read_at_def)
  have b: "CanSeePosition (zombie_at 0 0) 0 1 ''#........'' 3 = Some (Return False)"
    using CanSeePosition_scans_line_without_target [of "zombie_at 0 0" 0 1 "''#........''" 3] wall
    by (simp add: pos)
  have c: "CanSeePosition (zombie_at 0 0) 0 0 ''#........'' 3 = Some (Return True)"
    using CanSeePosition_scans_line_without_target [of "zombie_at 0 0" 0 0 "''#........''" 3]
    by (simp add: pos)
  from near cells upd a wall b c show ?thesis by blast
qed


section \<open>The state machine and the update loop\<close>

lemma alert_one_non_idle: "state c \<noteq> AI_STATE_IDLE \<Longrightarrow> alert_one a c = c"
  by (simp add: alert_one_def)

lemma RaiseAlert_length: "length (fst (RaiseAlert i es al)) = length es"
  by (simp add: RaiseAlert_def Let_def)

lemma RaiseAlert_nth:
  "j < length es \<Longrightarrow>
     fst (RaiseAlert i es al) ! j = (if j \<noteq> i then alert_one (es ! i) (es ! j) else es ! j)"
  by (simp add: RaiseAlert_def Let_def)

lemma update_enemies_keeps:
  "update_enemies fs rnd p tmap w dt k i (es, al) = Some (Return (es', al')) \<Longrightarrow>
   j < length es \<Longrightarrow> state (es ! j) \<noteq> AI_STATE_IDLE \<Longrightarrow>
   (j < i \<or> state (es ! j) = AI_STATE_DEAD) \<Longrightarrow>
   es' ! j = es ! j \<and> length es' = length es"
proof (induction k arbitrary: i es al)
  case 0
  then show ?case by simp
next
  case (Suc k)
  show ?case
  proof (cases "state (es ! i) \<noteq> AI_STATE_DEAD")
    case False
    with Suc.prems have "update_enemies fs rnd p tmap w dt k (Suc i) (es, al) = Some (Return (es', al'))"
      by simp
    from Suc.IH [OF this] Suc.prems show ?thesis by auto
  next
    case True
    then have ji: "j \<noteq> i" using Suc.prems by auto
    from True Suc.prems(1) obtain cur where
      cur: "UpdateEnemyAI fs (rnd i) (es ! i) p tmap w dt = Some (Return cur)"
      by (auto split: option.splits outcome.splits)
    define st where "st = (if canSeePlayer cur \<and> alertTime al < 0
                 then RaiseAlert i (es[i := cur]) al else (es[i := cur], al))"
    have rest: "update_enemies fs rnd p tmap w dt k (Suc i) (fst st, snd st) = Some (Return (es', al'))"
      using True Suc.prems(1) cur by (simp add: st_def Let_def)
    have len: "length (fst st) = length es"
      by (simp add: st_def RaiseAlert_length)
    have nth: "fst st ! j = es ! j"
      using ji Suc.prems(2,3) by (simp add: st_def RaiseAlert_nth alert_one_non_idle)
    from Suc.IH [OF rest] len nth Suc.prems show ?thesis by auto
  qed
qed


lemma UpdateEnemyAI_visible:
  assumes "CanSeePosition e (Player.x p) (Player.y p) tmap w = Some (Return True)"
  shows "UpdateEnemyAI fs rnd e p tmap w dt =
     Some (Return (dispatch_state fs rnd (state e)
        (e\<lparr>canSeePlayer := True, lastSeenPlayerX := Player.x p, lastSeenPlayerY := Player.y p\<rparr>)
        p tmap w dt))"
  using assms by (simp add: UpdateEnemyAI_def UpdateEnemyPerception_def)

lemma UpdateEnemyAI_returns:
  "\<exists>r. UpdateEnemyAI fs rnd e p tmap w dt = Some r"
  by (auto simp: UpdateEnemyAI_def UpdateEnemyPerception_def CanSeePosition_scan Let_def
      split: outcome.splits)

text \<open>
  Claim C8. An agent whose update starts in IDLE, that sees its target at a Manhattan
  distance below 5 and whose courage is below 0.3 is in FLEE after \<open>UpdateEnemyAI\<close>,
  whatever its aggression: the test comes before the one for CHASE. It is still in FLEE
  when the update loop of the tick has finished. In particular an agent with courage 0.1
  and aggression 0.1 that sees its target at distance 3 ends in FLEE.
\<close>

theorem idle_to_flee:
  "(state e = AI_STATE_IDLE
      \<and> CanSeePosition e (Player.x p) (Player.y p) tmap w = Some (Return True)
      \<and> ManhattanDistance (Enemy.x e) (Enemy.y e) (Player.x p) (Player.y p) < 5
      \<and> courage e < 3 / 10
    \<longrightarrow> (\<exists>e'. UpdateEnemyAI fs rnd e p tmap w dt = Some (Return e') \<and> state e' = AI_STATE_FLEE))
   \<and> (j + Suc k = length es \<and> state (es ! j) = AI_STATE_IDLE
      \<and> CanSeePosition (es ! j) (Player.x p) (Player.y p) tmap w = Some (Return True)
      \<and> ManhattanDistance (Enemy.x (es ! j)) (Enemy.y (es ! j)) (Player.x p) (Player.y p) < 5
      \<and> courage (es ! j) < 3 / 10
      \<and> update_enemies fs rnds p tmap w dt (Suc k) j (es, al) = Some (Return (es', al'))
    \<longrightarrow> state (es' ! j) = AI_STATE_FLEE)
   \<and> (state e = AI_STATE_IDLE
      \<and> CanSeePosition e (Player.x p) (Player.y p) tmap w = Some (Return True)
      \<and> ManhattanDistance (Enemy.x e) (Enemy.y e) (Player.x p) (Player.y p) = 3
      \<and> courage e = 1 / 10 \<and> aggression e = 1 / 10
    \<longrightarrow> (\<exists>e'. UpdateEnemyAI fs rnd e p tmap w dt = Some (Return e') \<and> state e' = AI_STATE_FLEE))"
proof (intro conjI impI)
  assume h: "state e = AI_STATE_IDLE
      \<and> CanSeePosition e (Player.x p) (Player.y p) tmap w = Some (Return True)
      \<and> ManhattanDistance (Enemy.x e) (Enemy.y e) (Player.x p) (Player.y p) < 5
      \<and> courage e < 3 / 10"
  then show "\<exists>e'. UpdateEnemyAI fs rnd e p tmap w dt = Some (Return e') \<and> state e' = AI_STATE_FLEE"
    by (simp add: UpdateEnemyAI_visible UpdateIdleState_def Let_def)
next
  assume h: "state e = AI_STATE_IDLE
      \<and> CanSeePosition e (Player.x p) (Player.y p) tmap w = Some (Return True)
      \<and> ManhattanDistance (Enemy.x e) (Enemy.y e) (Player.x p) (Player.y p) = 3
      \<and> courage e = 1 / 10 \<and> aggression e = 1 / 10"
  then show "\<exists>e'. UpdateEnemyAI fs rnd e p tmap w dt = Some (Return e') \<and> state e' = AI_STATE_FLEE"
    by (simp add: UpdateEnemyAI_visible UpdateIdleState_def Let_def)
next
  assume h: "j + Suc k = length es \<and> state (es ! j) = AI_STATE_IDLE
      \<and> CanSeePosition (es ! j) (Player.x p) (Player.y p) tmap w = Some (Return True)
      \<and> ManhattanDistance (Enemy.x (es ! j)) (Enemy.y (es ! j)) (Player.x p) (Player.y p) < 5
      \<and> courage (es ! j) < 3 / 10
      \<and> update_enemies fs rnds p tmap w dt (Suc k) j (es, al) = Some (Return (es', al'))"
  then obtain cur where cur: "UpdateEnemyAI fs (rnds j) (es ! j) p tmap w dt = Some (Return cur)"
    and flee: "state cur = AI_STATE_FLEE"
    by (auto simp: UpdateEnemyAI_visible UpdateIdleState_def Let_def)
  define st where "st = (if canSeePlayer cur \<and> alertTime al < 0
                 then RaiseAlert j (es[j := cur]) al else (es[j := cur], al))"
  have idle: "state (es ! j) \<noteq> AI_STATE_DEAD" using h by simp
  have run: "update_enemies fs rnds p tmap w dt (Suc k) j (es, al) = Some (Return (es', al'))"
    using h by blast
  have rest: "update_enemies fs rnds p tmap w dt k (Suc j) (fst st, snd st) = Some (Return (es', al'))"
    using run idle cur unfolding st_def by (simp add: Let_def)
  have len: "length (fst st) = length es"
    by (simp add: st_def RaiseAlert_length)
  have jl: "j < length es" using h by linarith
  have nth: "fst st ! j = cur"
    using jl by (simp add: st_def RaiseAlert_nth)
  have "es' ! j = fst st ! j \<and> length es' = length (fst st)"
    using jl len nth flee by (intro update_enemies_keeps [OF rest]) auto
  with nth flee show "state (es' ! j) = AI_STATE_FLEE" by simp
qed

theorem idle_to_flee_witness:
  "state (goblin_at 0 0) = AI_STATE_IDLE
   \<and> CanSeePosition (goblin_at 0 0) (Player.x (player_at 3 0)) (Player.y (player_at 3 0)) (open_map 25) 5
        = Some (Return True)
   \<and> ManhattanDistance (Enemy.x (goblin_at 0 0)) (Enemy.y (goblin_at 0 0))
        (Player.x (player_at 3 0)) (Player.y (player_at 3 0)) = 3
   \<and> courage (goblin_at 0 0) = 1 / 10 \<and> aggression (goblin_at 0 0) = 1 / 10
   \<and> (\<exists>e'. UpdateEnemyAI example_functions 0 (goblin_at 0 0) (player_at 3 0) (open_map 25) 5 (1 / 60)
              = Some (Return e') \<and> state e' = AI_STATE_FLEE)
   \<and> (\<exists>es' al'. update_enemies example_functions (\<lambda>i. 0) (player_at 3 0) (open_map 25) 5 (1 / 60)
                    (Suc 0) 0 ([goblin_at 0 0], no_alert) = Some (Return (es', al'))
                  \<and> state (es' ! 0) = AI_STATE_FLEE)"
proof -
  have g: "state (goblin_at 0 0) = AI_STATE_IDLE" "courage (goblin_at 0 0) = 1 / 10"
    "aggression (goblin_at 0 0) = 1 / 10" "Enemy.x (goblin_at 0 0) = 0" "Enemy.y (goblin_at 0 0) = 0"
    "sightRange (goblin_at 0 0) = 7" "Player.x (player_at 3 0) = 3" "Player.y (player_at 3 0) = 0"
    by (simp_all add: goblin_at_def zombie_at_def player_at_def)
  have cells: "sight_cells 0 0 3 0 = [(0, 0), (1, 0), (2, 0)]"
    by code_simp
  have sees: "CanSeePosition (goblin_at 0 0) (Player.x (player_at 3 0)) (Player.y (player_at 3 0)) (open_map 25) 5
        = Some (Return True)"
    by (simp add: CanSeePosition_scan g cells ManhattanDistance_def open_map_def read_at_def)
  have d: "ManhattanDistance (Enemy.x (goblin_at 0 0)) (Enemy.y (goblin_at 0 0))
        (Player.x (player_at 3 0)) (Player.y (player_at 3 0)) = 3"
    by (simp add: g ManhattanDistance_def)
  note t = idle_to_flee [where e = "goblin_at 0 0" and p = "player_at 3 0" and tmap = "open_map 25"
      and w = 5 and fs = example_functions and rnd = 0 and dt = "1 / 60" and j = 0 and k = 0
      and es = "[goblin_at 0 0]" and rnds = "\<lambda>i. 0" and al = no_alert]
  have one: "\<exists>e'. UpdateEnemyAI example_functions 0 (goblin_at 0 0) (player_at 3 0) (open_map 25) 5 (1 / 60)
              = Some (Return e') \<and> state e' = AI_STATE_FLEE"
    using t g(1,2,3) sees d by blast
  then obtain cur where cur: "UpdateEnemyAI example_functions 0 (goblin_at 0 0) (player_at 3 0) (open_map 25) 5 (1 / 60)
              = Some (Return cur)" by blast
  have "\<exists>es' al'. update_enemies example_functions (\<lambda>i. 0) (player_at 3 0) (open_map 25) 5 (1 / 60)
                    (Suc 0) 0 ([goblin_at 0 0], no_alert) = Some (Return (es', al'))"
    using g(1) cur by (cases "RaiseAlert 0 [cur] no_alert") (auto simp: Let_def)
  then obtain es' al' where run: "update_enemies example_functions (\<lambda>i. 0) (player_at 3 0) (open_map 25) 5 (1 / 60)
                    (Suc 0) 0 ([goblin_at 0 0], no_alert) = Some (Return (es', al'))"
    by blast
  have "state (es' ! 0) = AI_STATE_FLEE"
    using t [where es' = es' and al' = al'] g(1,2) sees d run by simp
  with g sees d one run show ?thesis by blast
qed


lemma MoveTowardsTarget_state: "state (MoveTowardsTarget fs e tx ty tmap w) = state e"
  by (simp add: MoveTowardsTarget_def Let_def)

text \<open>
  Claim C7, as amended. DEAD is terminal: \<open>UpdateEnemyAI\<close> returns and leaves a DEAD
  agent DEAD (its switch has no case for the state), and the update loop, which skips
  DEAD agents, leaves a DEAD agent's whole record as it was. Nothing in the update code
  enters DEAD: the IDLE and CHASE updates and \<open>RaiseAlert\<close> keep an agent that is not DEAD
  out of DEAD, whatever its health.
\<close>

theorem dead_is_terminal:
  "(state e = AI_STATE_DEAD \<longrightarrow>
      (\<exists>r. UpdateEnemyAI fs rnd e p tmap w dt = Some r
           \<and> (\<forall>e'. r = Return e' \<longrightarrow> state e' = AI_STATE_DEAD)))
   \<and> (update_all_enemies fs rnds p tmap w dt (es, al) = Some (Return (es', al'))
        \<and> j < length es \<and> state (es ! j) = AI_STATE_DEAD
      \<longrightarrow> es' ! j = es ! j)
   \<and> (state e \<noteq> AI_STATE_DEAD \<longrightarrow>
        state (UpdateIdleState rnd e p dt) \<noteq> AI_STATE_DEAD
        \<and> state (UpdateChaseState fs e p tmap w dt) \<noteq> AI_STATE_DEAD
        \<and> state (alert_one a e) \<noteq> AI_STATE_DEAD)"
proof (intro conjI impI)
  assume "state e = AI_STATE_DEAD"
  then show "\<exists>r. UpdateEnemyAI fs rnd e p tmap w dt = Some r
           \<and> (\<forall>e'. r = Return e' \<longrightarrow> state e' = AI_STATE_DEAD)"
    by (auto simp: UpdateEnemyAI_def UpdateEnemyPerception_def CanSeePosition_scan Let_def
        split: outcome.splits)
next
  assume h: "update_all_enemies fs rnds p tmap w dt (es, al) = Some (Return (es', al'))
        \<and> j < length es \<and> state (es ! j) = AI_STATE_DEAD"
  then have "es' ! j = es ! j \<and> length es' = length es"
    by (intro update_enemies_keeps [of fs rnds p tmap w dt "length es" 0 es al es' al' j])
       (auto simp: update_all_enemies_def)
  then show "es' ! j = es ! j" by simp
next
  assume "state e \<noteq> AI_STATE_DEAD"
  then show "state (UpdateIdleState rnd e p dt) \<noteq> AI_STATE_DEAD"
    by (simp add: UpdateIdleState_def Let_def)
next
  assume "state e \<noteq> AI_STATE_DEAD"
  then show "state (UpdateChaseState fs e p tmap w dt) \<noteq> AI_STATE_DEAD"
    by (simp add: UpdateChaseState_def Let_def MoveTowardsTarget_state)
next
  assume "state e \<noteq> AI_STATE_DEAD"
  then show "state (alert_one a e) \<noteq> AI_STATE_DEAD"
    by (simp add: alert_one_def Let_def)
qed

theorem dead_is_terminal_witness:
  "state ((zombie_at 1 0)\<lparr>state := AI_STATE_DEAD\<rparr>) = AI_STATE_DEAD
   \<and> UpdateEnemyAI example_functions 0 ((zombie_at 1 0)\<lparr>state := AI_STATE_DEAD\<rparr>)
        (player_at 3 0) (open_map 25) 5 (1 / 60)
       = Some (Return ((zombie_at 1 0)\<lparr>state := AI_STATE_DEAD, canSeePlayer := True,
                          lastSeenPlayerX := 3, lastSeenPlayerY := 0\<rparr>))
   \<and> update_all_enemies example_functions (\<lambda>i. 0) (player_at 3 0) (open_map 25) 5 (1 / 60)
        ([(zombie_at 1 0)\<lparr>state := AI_STATE_DEAD\<rparr>, goblin_at 0 0], no_alert)
       = Some (Return ([(zombie_at 1 0)\<lparr>state := AI_STATE_DEAD\<rparr>,
                        (goblin_at 0 0)\<lparr>state := AI_STATE_FLEE, canSeePlayer := True,
                           lastSeenPlayerX := 3, lastSeenPlayerY := 0\<rparr>],
                       \<lparr>alertX = 0, alertY = 0, alertTime = 0\<rparr>))
   \<and> state (zombie_at 1 0) \<noteq> AI_STATE_DEAD
   \<and> state (UpdateIdleState 0 (zombie_at 1 0) (player_at 3 0) (1 / 60)) = AI_STATE_PATROL"
proof -
  have c1: "sight_cells 1 0 3 0 = [(1, 0), (2, 0)]" by code_simp
  have c0: "sight_cells 0 0 3 0 = [(0, 0), (1, 0), (2, 0)]" by code_simp
  have a: "UpdateEnemyAI example_functions 0 ((zombie_at 1 0)\<lparr>state := AI_STATE_DEAD\<rparr>)
        (player_at 3 0) (open_map 25) 5 (1 / 60)
       = Some (Return ((zombie_at 1 0)\<lparr>state := AI_STATE_DEAD, canSeePlayer := True,
                          lastSeenPlayerX := 3, lastSeenPlayerY := 0\<rparr>))"
    by (simp add: UpdateEnemyAI_def UpdateEnemyPerception_def CanSeePosition_scan c1
        zombie_at_def player_at_def ManhattanDistance_def open_map_def read_at_def)
  have g: "UpdateEnemyAI example_functions 0 (goblin_at 0 0) (player_at 3 0) (open_map 25) 5 (1 / 60)
       = Some (Return ((goblin_at 0 0)\<lparr>state := AI_STATE_FLEE, canSeePlayer := True,
                           lastSeenPlayerX := 3, lastSeenPlayerY := 0\<rparr>))"
    by (simp add: UpdateEnemyAI_def UpdateEnemyPerception_def CanSeePosition_scan c0
        goblin_at_def zombie_at_def player_at_def ManhattanDistance_def open_map_def read_at_def
        UpdateIdleState_def Let_def)
  have b: "update_all_enemies example_functions (\<lambda>i. 0) (player_at 3 0) (open_map 25) 5 (1 / 60)
        ([(zombie_at 1 0)\<lparr>state := AI_STATE_DEAD\<rparr>, goblin_at 0 0], no_alert)
       = Some (Return ([(zombie_at 1 0)\<lparr>state := AI_STATE_DEAD\<rparr>,
                        (goblin_at 0 0)\<lparr>state := AI_STATE_FLEE, canSeePlayer := True,
                           lastSeenPlayerX := 3, lastSeenPlayerY := 0\<rparr>],
                       \<lparr>alertX = 0, alertY = 0, alertTime = 0\<rparr>))"
    by (simp add: update_all_enemies_def g no_alert_def RaiseAlert_def alert_one_def Let_def)
       (simp add: goblin_at_def zombie_at_def)
  have d: "state (zombie_at 1 0) \<noteq> AI_STATE_DEAD"
    by (simp add: zombie_at_def)
  have e: "state (UpdateIdleState 0 (zombie_at 1 0) (player_at 3 0) (1 / 60)) = AI_STATE_PATROL"
    by (simp add: UpdateIdleState_def Let_def zombie_at_def)
  have dead: "state ((zombie_at 1 0)\<lparr>state := AI_STATE_DEAD\<rparr>) = AI_STATE_DEAD" by simp
  have "[(zombie_at 1 0)\<lparr>state := AI_STATE_DEAD\<rparr>, goblin_at 0 0] ! 0
      = (zombie_at 1 0)\<lparr>state := AI_STATE_DEAD\<rparr>" by simp
  note t = dead_is_terminal [of "(zombie_at 1 0)\<lparr>state := AI_STATE_DEAD\<rparr>" example_functions 0
      "player_at 3 0" "open_map 25" 5 "1 / 60"]
  from t dead a b d e show ?thesis by blast
qed

text \<open>
  Claim C7 as stated fails in its second half: an IDLE agent with health 0 is still IDLE
  after its update and after the whole update loop.
\<close>

theorem no_death_transition_counterexample:
  "Enemy.health ((zombie_at 0 0)\<lparr>Enemy.health := 0\<rparr>) \<le> 0
   \<and> state ((zombie_at 0 0)\<lparr>Enemy.health := 0\<rparr>) = AI_STATE_IDLE
   \<and> UpdateEnemyAI example_functions 500 ((zombie_at 0 0)\<lparr>Enemy.health := 0\<rparr>)
        (player_at 4 4) (open_map 25) 5 (1 / 60)
       = Some (Return ((zombie_at 0 0)\<lparr>Enemy.health := 0\<rparr>))
   \<and> update_all_enemies example_functions (\<lambda>i. 500) (player_at 4 4) (open_map 25) 5 (1 / 60)
        ([(zombie_at 0 0)\<lparr>Enemy.health := 0\<rparr>], no_alert)
       = Some (Return ([(zombie_at 0 0)\<lparr>Enemy.health := 0\<rparr>], no_alert))"
proof -
  have u: "UpdateEnemyAI example_functions 500 ((zombie_at 0 0)\<lparr>Enemy.health := 0\<rparr>)
        (player_at 4 4) (open_map 25) 5 (1 / 60)
       = Some (Return ((zombie_at 0 0)\<lparr>Enemy.health := 0\<rparr>))"
    by (simp add: UpdateEnemyAI_def UpdateEnemyPerception_def CanSeePosition_scan
        zombie_at_def player_at_def ManhattanDistance_def UpdateIdleState_def Let_def)
  have "update_all_enemies example_functions (\<lambda>i. 500) (player_at 4 4) (open_map 25) 5 (1 / 60)
        ([(zombie_at 0 0)\<lparr>Enemy.health := 0\<rparr>], no_alert)
       = Some (Return ([(zombie_at 0 0)\<lparr>Enemy.health := 0\<rparr>], no_alert))"
    by (simp add: update_all_enemies_def u) (simp add: zombie_at_def)
  with u show ?thesis by (simp add: zombie_at_def)
qed

section \<open>Where the moves land\<close>

text \<open>
  What each position change guarantees about the cell it commits. A move allowed by
  \<open>CheckAllCollisions\<close> is inside the map, on a tile that is not SOLID, with no live
  solid occupant; \<open>SwapPositions\<close> exchanges two positions; \<open>MoveTowardsTarget\<close> stays
  or goes where \<open>CanMoveTo\<close> said yes, and asks nothing about other agents; the
  player's move of lesson 14 stays or goes to a tile that is not a wall and holds no
  enemy; \<open>MoveWithBreadcrumbs\<close> stays or goes to a cell of the grid that is not a wall.
  \<open>PushEntity\<close> checks nothing.
\<close>

lemma CheckAllCollisions_allowed:
  assumes "CheckAllCollisions m es mover nx ny = Return r" "canMove r"
  shows "in_bounds m nx ny
     \<and> (\<exists>c. read_at (collision m) (ny * width m + nx) = Some c \<and> rule_kind c \<noteq> COLLISION_SOLID)
     \<and> \<not> occupied es mover nx ny"
proof -
  have ib: "in_bounds m nx ny"
    using assms by (auto simp: CheckAllCollisions_def in_bounds_def Let_def split: if_splits)
  then obtain c where c: "read_at (collision m) (ny * width m + nx) = Some c"
    using assms by (auto simp: CheckAllCollisions_def in_bounds_def Let_def split: option.splits)
  have k: "rule_kind c \<noteq> COLLISION_SOLID"
    using assms ib c
    by (auto simp: CheckAllCollisions_def in_bounds_def tile_rules_default split: if_splits)
  have "\<not> occupied es mover nx ny"
  proof
    assume "occupied es mover nx ny"
    then obtain hit where g: "GetEntityAt es nx ny (Entity.id mover) = Some hit"
      using GetEntityAt_None [of es nx ny "Entity.id mover"] by (auto simp: occupied_def)
    from GetEntityAt_Some [OF g] have "isSolid hit" by simp
    with assms ib c k g show False
      by (cases "rule_kind c = COLLISION_NONE")
         (auto simp: CheckAllCollisions_def in_bounds_def tile_rules_default)
  qed
  with ib c k show ?thesis by blast
qed

lemma SwapPositions_exchanges:
  "Entity.x (fst (SwapPositions mover target)) = Entity.x target
   \<and> Entity.y (fst (SwapPositions mover target)) = Entity.y target
   \<and> Entity.x (snd (SwapPositions mover target)) = Entity.x mover
   \<and> Entity.y (snd (SwapPositions mover target)) = Entity.y mover"
  by (simp add: SwapPositions_def Let_def)

lemma MoveTowardsTarget_lands:
  "(Enemy.x (MoveTowardsTarget fs e tx ty tmap w) = Enemy.x e
      \<and> Enemy.y (MoveTowardsTarget fs e tx ty tmap w) = Enemy.y e)
   \<or> CanMoveTo4 fs tmap w (Enemy.x (MoveTowardsTarget fs e tx ty tmap w))
        (Enemy.y (MoveTowardsTarget fs e tx ty tmap w))"
  by (simp add: MoveTowardsTarget_def Let_def)

lemma player_move_lands:
  assumes "player_move p dx dy es tmap w = Return p'"
  shows "p' = p
     \<or> ((\<exists>t. read_at tmap (Player.y p' * w + Player.x p') = Some t \<and> t \<noteq> CHR ''#'')
         \<and> \<not> list_ex (\<lambda>current. Enemy.x current = Player.x p' \<and> Enemy.y current = Player.y p') es)"
proof (cases "dx \<noteq> 0 \<or> dy \<noteq> 0")
  case False
  with assms show ?thesis by (simp add: player_move_def)
next
  case True
  let ?nx = "Player.x p + dx" and ?ny = "Player.y p + dy"
  from assms True obtain t where t: "read_at tmap (?ny * w + ?nx) = Some t"
    by (cases "read_at tmap (?ny * w + ?nx)") (simp_all add: player_move_def Let_def)
  show ?thesis
  proof (cases "t \<noteq> CHR ''#'' \<and> \<not> list_ex (\<lambda>current. Enemy.x current = ?nx \<and> Enemy.y current = ?ny) es")
    case False
    with assms True t have "p' = p"
      by (simp add: player_move_def Let_def split: if_splits)
    then show ?thesis by simp
  next
    case m: True
    with assms True t have "p' = p\<lparr>Player.x := ?nx, Player.y := ?ny\<rparr>"
      by (simp add: player_move_def Let_def split: if_splits)
    with m t show ?thesis by simp
  qed
qed

lemma fold_outcome_inv:
  "(\<forall>a \<in> set as. \<forall>s s'. P s \<longrightarrow> f a s = Return s' \<longrightarrow> P s') \<Longrightarrow>
     P s \<Longrightarrow> fold_outcome f as s = Return s' \<Longrightarrow> P s'"
proof (induction as arbitrary: s)
  case Nil
  from Nil(2,3) show ?case by simp
next
  case (Cons a as)
  from Cons.prems(3) obtain s1 where s1: "f a s = Return s1" "fold_outcome f as s1 = Return s'"
    by (cases "f a s") simp_all
  have p1: "P s1"
    by (rule Cons.prems(1) [rule_format, OF _ Cons.prems(2) s1(1)]) simp
  have rest: "\<forall>a \<in> set as. \<forall>s s'. P s \<longrightarrow> f a s = Return s' \<longrightarrow> P s'"
    using Cons.prems(1) by (meson list.set_intros(2))
  show ?case by (rule Cons.IH [OF rest p1 s1(2)])
qed

lemma best_neighbour_cases:
  assumes "best_neighbour tmap w h dm e off best = Return best'"
  shows "best' = best
     \<or> (fst best' = Enemy.x e + fst off \<and> fst (snd best') = Enemy.y e + snd off
         \<and> in_grid w h (Enemy.x e + fst off, Enemy.y e + snd off)
         \<and> open_tile tmap w (Enemy.x e + fst off, Enemy.y e + snd off))"
proof (cases "in_grid w h (Enemy.x e + fst off, Enemy.y e + snd off)")
  case False
  then have "best_neighbour tmap w h dm e off best = Return best"
    by (auto simp: best_neighbour_def in_grid_def Let_def)
  with assms show ?thesis by simp
next
  case True
  then have g: "Enemy.x e + fst off \<ge> 0 \<and> Enemy.x e + fst off < w
      \<and> Enemy.y e + snd off \<ge> 0 \<and> Enemy.y e + snd off < h"
    by (auto simp: in_grid_def)
  show ?thesis
  proof (cases "open_tile tmap w (Enemy.x e + fst off, Enemy.y e + snd off)")
    case False
    then have "best_neighbour tmap w h dm e off best = Return best \<or>
        best_neighbour tmap w h dm e off best = OutOfBounds"
      using g by (simp add: best_neighbour_def Let_def open_tile_def split: option.splits)
    with assms show ?thesis by auto
  next
    case o: True
    have "best' = best \<or> (fst best' = Enemy.x e + fst off \<and> fst (snd best') = Enemy.y e + snd off)"
      using assms g
      by (simp add: best_neighbour_def Let_def split: option.splits if_splits) auto
    with True o show ?thesis by blast
  qed
qed

lemma best_neighbour_lands:
  assumes "best_neighbour tmap w h dm e off best = Return best'"
    and "(fst best, fst (snd best)) = (Enemy.x e, Enemy.y e)
         \<or> (in_grid w h (fst best, fst (snd best)) \<and> open_tile tmap w (fst best, fst (snd best)))"
  shows "(fst best', fst (snd best')) = (Enemy.x e, Enemy.y e)
         \<or> (in_grid w h (fst best', fst (snd best')) \<and> open_tile tmap w (fst best', fst (snd best')))"
proof -
  from best_neighbour_cases [OF assms(1)] consider "best' = best"
    | "fst best' = Enemy.x e + fst off \<and> fst (snd best') = Enemy.y e + snd off
         \<and> in_grid w h (Enemy.x e + fst off, Enemy.y e + snd off)
         \<and> open_tile tmap w (Enemy.x e + fst off, Enemy.y e + snd off)" by blast
  then show ?thesis
  proof cases
    case 1
    with assms(2) show ?thesis by simp
  next
    case 2
    then show ?thesis by simp
  qed
qed

lemma MoveWithBreadcrumbs_lands:
  assumes "MoveWithBreadcrumbs e tx ty tmap w h = Some (Return e')"
  shows "(Enemy.x e', Enemy.y e') = (Enemy.x e, Enemy.y e)
     \<or> (in_grid w h (Enemy.x e', Enemy.y e') \<and> open_tile tmap w (Enemy.x e', Enemy.y e'))"
proof -
  from assms obtain dm best where dm: "distance_field tx ty tmap w h = Some (Return dm)"
    and best: "best_move tmap w h dm e = Return best"
    and e': "e' = e\<lparr>Enemy.x := fst best, Enemy.y := fst (snd best)\<rparr>"
    by (auto simp: MoveWithBreadcrumbs_def split: option.splits outcome.splits)
  let ?P = "\<lambda>b. (fst b, fst (snd b)) = (Enemy.x e, Enemy.y e)
         \<or> (in_grid w h (fst b, fst (snd b)) \<and> open_tile tmap w (fst b, fst (snd b)))"
  have step: "\<forall>off \<in> set neighbour_offsets. \<forall>s s'. ?P s \<longrightarrow>
      best_neighbour tmap w h dm e off s = Return s' \<longrightarrow> ?P s'"
    using best_neighbour_lands by blast
  have "?P (Enemy.x e, Enemy.y e, INT_MAX)" by simp
  from fold_outcome_inv [where P = ?P, OF step this best [unfolded best_move_def]]
  have "(fst best, fst (snd best)) = (Enemy.x e, Enemy.y e)
         \<or> (in_grid w h (fst best, fst (snd best)) \<and> open_tile tmap w (fst best, fst (snd best)))" .
  with e' show ?thesis by simp
qed

text \<open>
  Claim C4 at a failing input. On the one-row map \<open>..#\<close> a mover at (0,0) pushes a target
  that stands on the floor tile (1,0): \<open>PushEntity\<close> commits the target to (2,0), a wall.
\<close>

theorem PushEntity_into_wall:
  "read_at (collision (row_map ''..#'')) (Entity.y (entity_at 2 1 0) * width (row_map ''..#'') + Entity.x (entity_at 2 1 0))
      = Some CHR ''.''
   \<and> PushEntity (entity_at 1 0 0) (entity_at 2 1 0) = (entity_at 1 0 0, entity_at 2 2 0)
   \<and> read_at (collision (row_map ''..#'')) (Entity.y (entity_at 2 2 0) * width (row_map ''..#'') + Entity.x (entity_at 2 2 0))
      = Some CHR ''#''
   \<and> rule_kind CHR ''#'' = COLLISION_SOLID"
  by (simp add: PushEntity_def entity_at_def row_map_def read_at_def rule_kind_values)

text \<open>
  Claim C5 at a failing input. On the open one-row map of width 4, with the player at
  (0,0) and no key pressed, a chasing enemy at (3,0) whose move is due and an idle enemy
  at (2,0), all on different tiles: after the tick both enemies stand on (2,0).
\<close>

theorem enemies_overlap_after_tick:
  "game_tick example_functions (\<lambda>i. 500) 0 0 (1 / 60) ''....'' 4
     (player_at 0 0,
      [(zombie_at 3 0)\<lparr>state := AI_STATE_CHASE, timeSinceMove := 10\<rparr>, zombie_at 2 0],
      no_alert)
   = Some (Return (player_at 0 0,
                   [(zombie_at 2 0)\<lparr>state := AI_STATE_CHASE, canSeePlayer := True\<rparr>,
                    (zombie_at 2 0)\<lparr>state := AI_STATE_CHASE, canSeePlayer := True\<rparr>],
                   \<lparr>alertX = 2, alertY = 0, alertTime = 1 / 60\<rparr>))"
proof -
  have c3: "sight_cells 3 0 0 0 = [(3, 0), (2, 0), (1, 0)]" by code_simp
  have c2: "sight_cells 2 0 0 0 = [(2, 0), (1, 0)]" by code_simp
  have a: "UpdateEnemyAI example_functions 500
             ((zombie_at 3 0)\<lparr>state := AI_STATE_CHASE, timeSinceMove := 10\<rparr>)
             (player_at 0 0) ''....'' 4 (1 / 60)
       = Some (Return ((zombie_at 2 0)\<lparr>state := AI_STATE_CHASE, canSeePlayer := True\<rparr>))"
    by (simp add: UpdateEnemyAI_def UpdateEnemyPerception_def CanSeePosition_scan c3
        zombie_at_def player_at_def ManhattanDistance_def read_at_def
        UpdateChaseState_def MoveTowardsTarget_def example_functions_def Let_def)
  have b: "UpdateEnemyAI example_functions 500 (zombie_at 2 0) (player_at 0 0) ''....'' 4 (1 / 60)
       = Some (Return ((zombie_at 2 0)\<lparr>state := AI_STATE_CHASE, canSeePlayer := True\<rparr>))"
    by (simp add: UpdateEnemyAI_def UpdateEnemyPerception_def CanSeePosition_scan c2
        zombie_at_def player_at_def ManhattanDistance_def read_at_def UpdateIdleState_def Let_def)
  have z: "state (zombie_at 2 0) = AI_STATE_IDLE" "canSeePlayer (zombie_at 2 0) = False"
    "Enemy.x (zombie_at 2 0) = 2" "Enemy.y (zombie_at 2 0) = 0" "hearingRange (zombie_at 2 0) = 3"
    "Enemy.type (zombie_at 2 0) = AI_TYPE_ZOMBIE" "courage (zombie_at 2 0) = 1"
    by (simp_all add: zombie_at_def)
  have run: "update_all_enemies example_functions (\<lambda>i. 500) (player_at 0 0) ''....'' 4 (1 / 60)
        ([(zombie_at 3 0)\<lparr>state := AI_STATE_CHASE, timeSinceMove := 10\<rparr>, zombie_at 2 0], no_alert)
     = Some (Return ([(zombie_at 2 0)\<lparr>state := AI_STATE_CHASE, canSeePlayer := True\<rparr>,
                      (zombie_at 2 0)\<lparr>state := AI_STATE_CHASE, canSeePlayer := True\<rparr>],
                     \<lparr>alertX = 2, alertY = 0, alertTime = 0\<rparr>))"
    by (simp add: update_all_enemies_def eval_nat_numeral a b z no_alert_def RaiseAlert_def
        alert_one_def ManhattanDistance_def Let_def)
  show ?thesis by (simp add: game_tick_def player_move_def run)
qed

theorem enemies_overlap_after_tick_witness:
  "\<exists>player' first second alerts'.
     game_tick example_functions (\<lambda>i. 500) 0 0 (1 / 60) ''....'' 4
       (player_at 0 0,
        [(zombie_at 3 0)\<lparr>state := AI_STATE_CHASE, timeSinceMove := 10\<rparr>, zombie_at 2 0],
        no_alert)
     = Some (Return (player', [first, second], alerts'))
     \<and> state first \<noteq> AI_STATE_DEAD \<and> state second \<noteq> AI_STATE_DEAD
     \<and> Enemy.x first = Enemy.x second \<and> Enemy.y first = Enemy.y second"
  using enemies_overlap_after_tick by simp

section \<open>The flood fill\<close>

lemma cell_bounds:
  assumes "0 < w" "in_grid w h c"
  shows "0 \<le> snd c * w + fst c" "snd c * w + fst c < w * h"
proof -
  from assms have c: "0 \<le> fst c" "fst c < w" "0 \<le> snd c" "snd c \<le> h - 1"
    by (auto simp: in_grid_def)
  have "0 \<le> snd c * w" using c assms by simp
  then show "0 \<le> snd c * w + fst c" using c by simp
  have "snd c * w \<le> (h - 1) * w" using c assms by (intro mult_right_mono) auto
  then have "snd c * w + fst c < (h - 1) * w + w" using c by linarith
  then show "snd c * w + fst c < w * h" by (simp add: algebra_simps)
qed

lemma cell_index_less:
  "0 < w \<Longrightarrow> in_grid w h c \<Longrightarrow> cell_index w c < nat (w * h)"
  using cell_bounds [of w h c] by (simp add: cell_index_def)

lemma cell_index_inj:
  assumes "in_grid w h c" "in_grid w h d" "cell_index w c = cell_index w d"
  shows "c = d"
proof -
  from assms have w: "0 < w" by (auto simp: in_grid_def)
  have "snd c * w + fst c = snd d * w + fst d"
    using assms(3) cell_bounds [OF w assms(1)] cell_bounds [OF w assms(2)]
    by (simp add: cell_index_def)
  from flat_index_inj [OF this] assms(1,2) show ?thesis
    by (auto simp: in_grid_def prod_eq_iff)
qed

lemma read_tile:
  assumes "grid_ok tmap w h" "in_grid w h c"
  shows "read_at tmap (snd c * w + fst c) = Some (tmap ! cell_index w c)"
proof -
  from assms have w: "0 < w" by (simp add: grid_ok_def)
  from cell_bounds [OF w assms(2)] assms(1) show ?thesis
    by (simp add: read_at_def cell_index_def grid_ok_def)
qed

lemma read_field:
  assumes "0 < w" "in_grid w h c" "length dm = nat (w * h)"
  shows "read_at dm (snd c * w + fst c) = Some (field_at dm w c)"
  using cell_bounds [OF assms(1,2)] assms(3)
  by (simp add: read_at_def cell_index_def field_at_def)

lemma open_tile_iff:
  "grid_ok tmap w h \<Longrightarrow> in_grid w h c \<Longrightarrow> open_tile tmap w c \<longleftrightarrow> tmap ! cell_index w c \<noteq> CHR ''#''"
  by (simp add: open_tile_def read_tile)

lemma visit_neighbour_pure:
  assumes "grid_ok tmap w h" "length (fst st) = nat (w * h)"
  shows "visit_neighbour tmap w h cur (fst p) (snd p) off st = Return (vn tmap w h cur p off st)"
proof -
  let ?c = "(fst p + fst off, snd p + snd off)"
  from assms have w: "0 < w" by (simp add: grid_ok_def)
  show ?thesis
  proof (cases "in_grid w h ?c")
    case False
    then show ?thesis
      by (auto simp: visit_neighbour_def vn_def in_grid_def Let_def)
  next
    case True
    have g: "fst p + fst off \<ge> 0 \<and> fst p + fst off < w \<and> snd p + snd off \<ge> 0 \<and> snd p + snd off < h"
      using True by (auto simp: in_grid_def)
    have rt: "read_at tmap ((snd p + snd off) * w + (fst p + fst off)) = Some (tmap ! cell_index w ?c)"
      using read_tile [OF assms(1) True] by simp
    have rf: "read_at (fst st) ((snd p + snd off) * w + (fst p + fst off)) = Some (field_at (fst st) w ?c)"
      using read_field [OF w True assms(2)] by simp
    have ci: "nat ((snd p + snd off) * w + (fst p + fst off)) = cell_index w ?c"
      by (simp add: cell_index_def)
    show ?thesis
      using g True open_tile_iff [OF assms(1) True]
      by (simp add: visit_neighbour_def vn_def Let_def rt rf ci)
  qed
qed

lemma length_vn [simp]: "length (fst (vn tmap w h cur p off st)) = length (fst st)"
  by (simp add: vn_def Let_def)

lemma fold_outcome_pure:
  assumes "\<And>a s. Q s \<Longrightarrow> f a s = Return (g a s) \<and> Q (g a s)" "Q s"
  shows "fold_outcome f as s = Return (fold g as s) \<and> Q (fold g as s)"
  using assms(2)
proof (induction as arbitrary: s)
  case Nil
  then show ?case by simp
next
  case (Cons a as)
  from assms(1) [OF Cons.prems] have "f a s = Return (g a s)" "Q (g a s)" by auto
  with Cons.IH [of "g a s"] show ?case by simp
qed

lemma length_vc [simp]: "length (fst (vc tmap w h cur p st)) = length (fst st)"
proof -
  have "length (fst (fold (vn tmap w h cur p) offs st)) = length (fst st)" for offs
    by (induction offs arbitrary: st) auto
  then show ?thesis by (simp add: vc_def)
qed

lemma visit_cell_pure:
  assumes "grid_ok tmap w h" "length (fst st) = nat (w * h)" "in_grid w h p"
  shows "visit_cell tmap w h cur p st = Return (vc tmap w h cur p st)"
proof -
  from assms have w: "0 < w" by (simp add: grid_ok_def)
  have rf: "read_at (fst st) (snd p * w + fst p) = Some (field_at (fst st) w p)"
    using read_field [OF w assms(3,2)] .
  have "fold_outcome (visit_neighbour tmap w h cur (fst p) (snd p)) neighbour_offsets st
        = Return (fold (vn tmap w h cur p) neighbour_offsets st)
      \<and> length (fst (fold (vn tmap w h cur p) neighbour_offsets st)) = nat (w * h)"
    by (rule fold_outcome_pure [where Q = "\<lambda>s. length (fst s) = nat (w * h)"])
       (simp_all add: visit_neighbour_pure [OF assms(1)] assms(2))
  then show ?thesis
    by (simp add: visit_cell_def vc_def rf)
qed

lemma grid_cells_set: "set (grid_cells w h) = {c. in_grid w h c}"
  by (auto simp: grid_cells_def in_grid_def)

lemma sweep_pure:
  assumes "grid_ok tmap w h" "length dm = nat (w * h)"
  shows "sweep tmap w h cur dm = Return (fold (vc tmap w h cur) (grid_cells w h) (dm, False))"
proof -
  have "\<And>cells st. set cells \<subseteq> {c. in_grid w h c} \<Longrightarrow> length (fst st) = nat (w * h) \<Longrightarrow>
      fold_outcome (visit_cell tmap w h cur) cells st = Return (fold (vc tmap w h cur) cells st)"
  proof -
    fix cells :: "(int \<times> int) list" and st :: "int list \<times> bool"
    show "set cells \<subseteq> {c. in_grid w h c} \<Longrightarrow> length (fst st) = nat (w * h) \<Longrightarrow>
      fold_outcome (visit_cell tmap w h cur) cells st = Return (fold (vc tmap w h cur) cells st)"
    proof (induction cells arbitrary: st)
      case Nil
      then show ?case by simp
    next
      case (Cons c cells)
      then have "visit_cell tmap w h cur c st = Return (vc tmap w h cur c st)"
        by (intro visit_cell_pure [OF assms(1)]) auto
      moreover have "fold_outcome (visit_cell tmap w h cur) cells (vc tmap w h cur c st)
          = Return (fold (vc tmap w h cur) cells (vc tmap w h cur c st))"
        using Cons.prems by (intro Cons.IH) auto
      ultimately show ?case by simp
    qed
  qed
  from this [of "grid_cells w h" "(dm, False)"] assms(2) show ?thesis
    by (simp add: sweep_def grid_cells_set)
qed


lemma grows_refl: "grows tmap w h cur dm0 dm dm"
  by (simp add: grows_def)

lemma grows_trans:
  "grows tmap w h cur dm0 a b \<Longrightarrow> grows tmap w h cur dm0 b c \<Longrightarrow> grows tmap w h cur dm0 a c"
  unfolding grows_def by (metis (no_types, lifting))

lemma grows_keeps:
  "grows tmap w h cur dm0 a b \<Longrightarrow> i < length a \<Longrightarrow> a ! i \<noteq> - 1 \<Longrightarrow> b ! i = a ! i"
  by (auto simp: grows_def)

lemma grows_level:
  assumes "grows tmap w h cur dm0 a b" "0 \<le> cur" "i < length a"
  shows "b ! i = cur \<longleftrightarrow> a ! i = cur"
  using assms by (auto simp: grows_def)

lemma adjacent4_offset:
  "off \<in> set neighbour_offsets \<Longrightarrow> adjacent4 p (fst p + fst off, snd p + snd off)"
  by (auto simp: neighbour_offsets_def adjacent4_def)

lemma adjacent4_cases:
  assumes "adjacent4 p c"
  shows "\<exists>off \<in> set neighbour_offsets. c = (fst p + fst off, snd p + snd off)"
proof -
  from assms have "(fst c - fst p, snd c - snd p) \<in> {(0, - 1), (0, 1), (- 1, 0), (1, 0)}"
    by (auto simp: adjacent4_def)
  then have "(fst c - fst p, snd c - snd p) \<in> set neighbour_offsets"
    by (simp add: neighbour_offsets_def)
  moreover have "c = (fst p + fst (fst c - fst p, snd c - snd p), snd p + snd (fst c - fst p, snd c - snd p))"
    by (simp add: prod_eq_iff)
  ultimately show ?thesis by blast
qed

lemma vn_grows:
  assumes "0 < w" "in_grid w h p" "field_at dm0 w p = cur" "off \<in> set neighbour_offsets"
    and "length (fst st) = nat (w * h)"
  shows "grows tmap w h cur dm0 (fst st) (fst (vn tmap w h cur p off st))"
proof -
  let ?c = "(fst p + fst off, snd p + snd off)"
  show ?thesis
  proof (cases "in_grid w h ?c \<and> open_tile tmap w ?c \<and> field_at (fst st) w ?c = - 1")
    case False
    then show ?thesis by (auto simp: vn_def Let_def grows_refl)
  next
    case True
    have lt: "cell_index w ?c < length (fst st)"
      using cell_index_less [OF assms(1)] True assms(5) by simp
    have po: "parent_ok tmap w h cur dm0 (cell_index w ?c)"
      unfolding parent_ok_def using True assms(2,3) adjacent4_offset [OF assms(4)] by blast
    have eq: "fst (vn tmap w h cur p off st) = (fst st)[cell_index w ?c := cur + 1]"
      using True by (simp add: vn_def Let_def)
    show ?thesis
      unfolding eq grows_def using True lt po
      by (auto simp: nth_list_update field_at_def)
  qed
qed

lemma vn_flag:
  "snd (vn tmap w h cur p off st) \<longleftrightarrow>
     snd st \<or> (in_grid w h (fst p + fst off, snd p + snd off)
               \<and> open_tile tmap w (fst p + fst off, snd p + snd off)
               \<and> field_at (fst st) w (fst p + fst off, snd p + snd off) = - 1)"
  by (auto simp: vn_def Let_def)

lemma vn_same:
  "\<not> (in_grid w h (fst p + fst off, snd p + snd off)
               \<and> open_tile tmap w (fst p + fst off, snd p + snd off)
               \<and> field_at (fst st) w (fst p + fst off, snd p + snd off) = - 1)
   \<Longrightarrow> vn tmap w h cur p off st = st"
  by (auto simp: vn_def Let_def)

lemma vn_visits:
  assumes "0 < w" "length (fst st) = nat (w * h)"
    and "in_grid w h (fst p + fst off, snd p + snd off)"
    and "open_tile tmap w (fst p + fst off, snd p + snd off)" "0 \<le> cur"
  shows "field_at (fst (vn tmap w h cur p off st)) w (fst p + fst off, snd p + snd off) \<noteq> - 1"
proof -
  have "cell_index w (fst p + fst off, snd p + snd off) < length (fst st)"
    using cell_index_less [OF assms(1,3)] assms(2) by simp
  then show ?thesis
    using assms by (auto simp: vn_def Let_def field_at_def)
qed

lemma sweep_inv_vn:
  assumes "0 < w" "in_grid w h p" "field_at dm0 w p = cur" "off \<in> set neighbour_offsets"
    and "length dm0 = nat (w * h)" "0 \<le> cur" "sweep_inv tmap w h cur dm0 st"
  shows "sweep_inv tmap w h cur dm0 (vn tmap w h cur p off st)"
proof -
  let ?c = "(fst p + fst off, snd p + snd off)"
  from assms(7) have g0: "grows tmap w h cur dm0 dm0 (fst st)" by (simp add: sweep_inv_def)
  then have len: "length (fst st) = nat (w * h)" using assms(5) by (simp add: grows_def)
  have g1: "grows tmap w h cur dm0 (fst st) (fst (vn tmap w h cur p off st))"
    by (rule vn_grows [OF assms(1-4) len])
  show ?thesis
  proof (cases "in_grid w h ?c \<and> open_tile tmap w ?c \<and> field_at (fst st) w ?c = - 1")
    case False
    then have "vn tmap w h cur p off st = st" by (rule vn_same)
    with assms(7) show ?thesis by simp
  next
    case True
    have lt: "cell_index w ?c < length dm0"
      using cell_index_less [OF assms(1)] True assms(5) by simp
    have was: "dm0 ! cell_index w ?c = - 1"
      using g0 True lt assms(6) by (auto simp: grows_def field_at_def)
    have eq: "vn tmap w h cur p off st = ((fst st)[cell_index w ?c := cur + 1], True)"
      using True by (simp add: vn_def Let_def)
    have now: "fst (vn tmap w h cur p off st) ! cell_index w ?c \<noteq> - 1"
      using lt len assms(5,6) by (simp add: eq)
    have po: "parent_ok tmap w h cur dm0 (cell_index w ?c)"
      unfolding parent_ok_def using True assms(2,3) adjacent4_offset [OF assms(4)] by blast
    have "grows tmap w h cur dm0 dm0 (fst (vn tmap w h cur p off st))"
      unfolding grows_def
    proof (intro conjI allI impI)
      show "length (fst (vn tmap w h cur p off st)) = length dm0"
        using len assms(5) by simp
      fix i assume i: "i < length dm0"
      show "fst (vn tmap w h cur p off st) ! i = dm0 ! i
          \<or> dm0 ! i = - 1 \<and> fst (vn tmap w h cur p off st) ! i = cur + 1 \<and> parent_ok tmap w h cur dm0 i"
      proof (cases "i = cell_index w ?c")
        case True
        then show ?thesis using was po lt len assms(5) by (simp add: eq)
      next
        case False
        then have "fst (vn tmap w h cur p off st) ! i = fst st ! i" by (simp add: eq)
        with g0 i show ?thesis by (auto simp: grows_def)
      qed
    qed
    moreover have "snd (vn tmap w h cur p off st)" by (simp add: eq)
    ultimately show ?thesis
      unfolding sweep_inv_def using was now lt by auto
  qed
qed


lemma sweep_inv_length:
  "sweep_inv tmap w h cur dm0 st \<Longrightarrow> length (fst st) = length dm0"
  by (simp add: sweep_inv_def grows_def)

lemma fold_vn_inv:
  assumes "0 < w" "in_grid w h p" "field_at dm0 w p = cur" "length dm0 = nat (w * h)" "0 \<le> cur"
  shows "set offs \<subseteq> set neighbour_offsets \<Longrightarrow> sweep_inv tmap w h cur dm0 st \<Longrightarrow>
     sweep_inv tmap w h cur dm0 (fold (vn tmap w h cur p) offs st)
     \<and> grows tmap w h cur dm0 (fst st) (fst (fold (vn tmap w h cur p) offs st))
     \<and> (\<forall>off \<in> set offs.
           in_grid w h (fst p + fst off, snd p + snd off)
           \<and> open_tile tmap w (fst p + fst off, snd p + snd off)
           \<longrightarrow> field_at (fst (fold (vn tmap w h cur p) offs st)) w (fst p + fst off, snd p + snd off) \<noteq> - 1)"
proof (induction offs rule: rev_induct)
  case Nil
  then show ?case by (simp add: grows_refl)
next
  case (snoc x xs)
  let ?s1 = "fold (vn tmap w h cur p) xs st"
  let ?s2 = "vn tmap w h cur p x ?s1"
  from snoc have x: "x \<in> set neighbour_offsets" and xs: "set xs \<subseteq> set neighbour_offsets" by auto
  from snoc.IH [OF xs snoc.prems(2)]
  have i1: "sweep_inv tmap w h cur dm0 ?s1"
    and g1: "grows tmap w h cur dm0 (fst st) (fst ?s1)"
    and v1: "\<forall>off \<in> set xs.
           in_grid w h (fst p + fst off, snd p + snd off)
           \<and> open_tile tmap w (fst p + fst off, snd p + snd off)
           \<longrightarrow> field_at (fst ?s1) w (fst p + fst off, snd p + snd off) \<noteq> - 1"
    by auto
  have len1: "length (fst ?s1) = nat (w * h)"
    using sweep_inv_length [OF i1] assms(4) by simp
  have i2: "sweep_inv tmap w h cur dm0 ?s2"
    by (rule sweep_inv_vn [OF assms(1-3) x assms(4,5) i1])
  have g12: "grows tmap w h cur dm0 (fst ?s1) (fst ?s2)"
    by (rule vn_grows [OF assms(1-3) x len1])
  have g2: "grows tmap w h cur dm0 (fst st) (fst ?s2)"
    by (rule grows_trans [OF g1 g12])
  have v2: "field_at (fst ?s2) w (fst p + fst off, snd p + snd off) \<noteq> - 1"
    if off: "off \<in> set (xs @ [x])"
      and c: "in_grid w h (fst p + fst off, snd p + snd off)
           \<and> open_tile tmap w (fst p + fst off, snd p + snd off)" for off
  proof (cases "off = x")
    case True
    then show ?thesis using vn_visits [OF assms(1) len1 _ _ assms(5)] c by blast
  next
    case False
    with off have "off \<in> set xs" by simp
    with v1 c have ne: "field_at (fst ?s1) w (fst p + fst off, snd p + snd off) \<noteq> - 1" by blast
    have lt: "cell_index w (fst p + fst off, snd p + snd off) < length (fst ?s1)"
      using cell_index_less [OF assms(1)] c len1 by simp
    from grows_keeps [OF g12 lt] ne show ?thesis by (simp add: field_at_def)
  qed
  show ?case using i2 g2 v2 by simp
qed

lemma closed_at_grows:
  assumes "closed_at tmap w h a p" "grows tmap w h cur dm0 a b" "0 < w" "length a = nat (w * h)"
  shows "closed_at tmap w h b p"
  unfolding closed_at_def
proof (intro allI impI)
  fix c assume c: "adjacent4 p c \<and> in_grid w h c \<and> open_tile tmap w c"
  with assms(1) have ne: "field_at a w c \<noteq> - 1" unfolding closed_at_def by blast
  have lt: "cell_index w c < length a" using cell_index_less [OF assms(3)] c assms(4) by simp
  from grows_keeps [OF assms(2) lt] ne show "field_at b w c \<noteq> - 1" by (simp add: field_at_def)
qed

lemma vc_inv:
  assumes "0 < w" "in_grid w h p" "length dm0 = nat (w * h)" "0 \<le> cur"
    and "sweep_inv tmap w h cur dm0 st"
  shows "sweep_inv tmap w h cur dm0 (vc tmap w h cur p st)
     \<and> grows tmap w h cur dm0 (fst st) (fst (vc tmap w h cur p st))
     \<and> (field_at dm0 w p = cur \<longrightarrow> closed_at tmap w h (fst (vc tmap w h cur p st)) p)"
proof -
  from assms(5) have g0: "grows tmap w h cur dm0 dm0 (fst st)" by (simp add: sweep_inv_def)
  have lt: "cell_index w p < length dm0" using cell_index_less [OF assms(1,2)] assms(3) by simp
  have lev: "field_at (fst st) w p = cur \<longleftrightarrow> field_at dm0 w p = cur"
    using grows_level [OF g0 assms(4) lt] by (simp add: field_at_def)
  show ?thesis
  proof (cases "field_at dm0 w p = cur")
    case False
    with lev have "vc tmap w h cur p st = st" by (simp add: vc_def)
    with assms(5) False show ?thesis by (simp add: grows_refl)
  next
    case True
    with lev have eq: "vc tmap w h cur p st = fold (vn tmap w h cur p) neighbour_offsets st"
      by (simp add: vc_def)
    from fold_vn_inv [OF assms(1,2) True assms(3,4) subset_refl assms(5)]
    have i: "sweep_inv tmap w h cur dm0 (vc tmap w h cur p st)"
      and g: "grows tmap w h cur dm0 (fst st) (fst (vc tmap w h cur p st))"
      and v: "\<forall>off \<in> set neighbour_offsets.
           in_grid w h (fst p + fst off, snd p + snd off)
           \<and> open_tile tmap w (fst p + fst off, snd p + snd off)
           \<longrightarrow> field_at (fst (vc tmap w h cur p st)) w (fst p + fst off, snd p + snd off) \<noteq> - 1"
      unfolding eq by auto
    have "closed_at tmap w h (fst (vc tmap w h cur p st)) p"
      unfolding closed_at_def
    proof (intro allI impI)
      fix c assume c: "adjacent4 p c \<and> in_grid w h c \<and> open_tile tmap w c"
      then obtain off where "off \<in> set neighbour_offsets" "c = (fst p + fst off, snd p + snd off)"
        using adjacent4_cases by blast
      with v c show "field_at (fst (vc tmap w h cur p st)) w c \<noteq> - 1" by blast
    qed
    with i g show ?thesis by simp
  qed
qed

lemma fold_vc_inv:
  assumes "0 < w" "length dm0 = nat (w * h)" "0 \<le> cur"
  shows "set cells \<subseteq> {c. in_grid w h c} \<Longrightarrow>
     sweep_inv tmap w h cur dm0 (fold (vc tmap w h cur) cells (dm0, False))
     \<and> (\<forall>p \<in> set cells. field_at dm0 w p = cur
           \<longrightarrow> closed_at tmap w h (fst (fold (vc tmap w h cur) cells (dm0, False))) p)"
proof (induction cells rule: rev_induct)
  case Nil
  show ?case by (simp add: sweep_inv_def grows_refl)
next
  case (snoc x xs)
  let ?s1 = "fold (vc tmap w h cur) xs (dm0, False)"
  let ?s2 = "vc tmap w h cur x ?s1"
  from snoc.prems have x: "in_grid w h x" and xs: "set xs \<subseteq> {c. in_grid w h c}" by auto
  from snoc.IH [OF xs] have i1: "sweep_inv tmap w h cur dm0 ?s1"
    and c1: "\<forall>p \<in> set xs. field_at dm0 w p = cur \<longrightarrow> closed_at tmap w h (fst ?s1) p"
    by auto
  from vc_inv [OF assms(1) x assms(2,3) i1]
  have i2: "sweep_inv tmap w h cur dm0 ?s2"
    and g12: "grows tmap w h cur dm0 (fst ?s1) (fst ?s2)"
    and cx: "field_at dm0 w x = cur \<longrightarrow> closed_at tmap w h (fst ?s2) x"
    by auto
  have len1: "length (fst ?s1) = nat (w * h)"
    using sweep_inv_length [OF i1] assms(2) by simp
  have "closed_at tmap w h (fst ?s2) p" if "p \<in> set (xs @ [x])" "field_at dm0 w p = cur" for p
  proof (cases "p = x")
    case True
    with cx that show ?thesis by simp
  next
    case False
    with that c1 have "closed_at tmap w h (fst ?s1) p" by simp
    from closed_at_grows [OF this g12 assms(1) len1] show ?thesis .
  qed
  with i2 show ?case by simp
qed

lemma sweep_result:
  assumes "grid_ok tmap w h" "length dm0 = nat (w * h)" "0 \<le> cur"
  shows "\<exists>dm' ch. sweep tmap w h cur dm0 = Return (dm', ch)
     \<and> grows tmap w h cur dm0 dm0 dm'
     \<and> (ch \<longrightarrow> (\<exists>i < length dm0. dm0 ! i = - 1 \<and> dm' ! i \<noteq> - 1))
     \<and> (\<not> ch \<longrightarrow> dm' = dm0)
     \<and> (\<forall>p. in_grid w h p \<and> field_at dm0 w p = cur \<longrightarrow> closed_at tmap w h dm' p)"
proof -
  from assms(1) have w: "0 < w" by (simp add: grid_ok_def)
  let ?s = "fold (vc tmap w h cur) (grid_cells w h) (dm0, False)"
  have eq: "sweep tmap w h cur dm0 = Return ?s"
    by (rule sweep_pure [OF assms(1,2)])
  from fold_vc_inv [OF w assms(2,3), of "grid_cells w h" tmap]
  have i: "sweep_inv tmap w h cur dm0 ?s"
    and c: "\<forall>p \<in> set (grid_cells w h). field_at dm0 w p = cur \<longrightarrow> closed_at tmap w h (fst ?s) p"
    by (auto simp: grid_cells_set)
  show ?thesis
  proof (intro exI conjI)
    show "sweep tmap w h cur dm0 = Return (fst ?s, snd ?s)" using eq by simp
    show "grows tmap w h cur dm0 dm0 (fst ?s)" using i by (simp add: sweep_inv_def)
    show "snd ?s \<longrightarrow> (\<exists>i < length dm0. dm0 ! i = - 1 \<and> fst ?s ! i \<noteq> - 1)"
      using i by (auto simp: sweep_inv_def)
    show "\<not> snd ?s \<longrightarrow> fst ?s = dm0"
      using i by (auto simp: sweep_inv_def)
    show "\<forall>p. in_grid w h p \<and> field_at dm0 w p = cur \<longrightarrow> closed_at tmap w h (fst ?s) p"
      using c by (simp add: grid_cells_set)
  qed
qed


lemma fill_invD:
  assumes "fill_inv tmap w h seed cur dm"
  shows "length dm = nat (w * h)"
    and "field_at dm w seed = 0"
    and "\<And>c. in_grid w h c \<Longrightarrow> - 1 \<le> field_at dm w c \<and> field_at dm w c \<le> cur"
    and "\<And>c. in_grid w h c \<Longrightarrow> field_at dm w c = 0 \<Longrightarrow> c = seed"
    and "\<And>c. in_grid w h c \<Longrightarrow> 0 < field_at dm w c \<Longrightarrow>
            open_tile tmap w c
            \<and> (\<exists>q. in_grid w h q \<and> adjacent4 q c \<and> field_at dm w q = field_at dm w c - 1)"
    and "\<And>p c. in_grid w h p \<Longrightarrow> 0 \<le> field_at dm w p \<Longrightarrow> field_at dm w p < cur \<Longrightarrow>
            adjacent4 p c \<Longrightarrow> in_grid w h c \<Longrightarrow> open_tile tmap w c \<Longrightarrow>
                 0 \<le> field_at dm w c \<and> field_at dm w c \<le> field_at dm w p + 1"
  using assms unfolding fill_inv_def by blast+

lemma fill_invI:
  assumes "length dm = nat (w * h)"
    and "field_at dm w seed = 0"
    and "\<And>c. in_grid w h c \<Longrightarrow> - 1 \<le> field_at dm w c \<and> field_at dm w c \<le> cur"
    and "\<And>c. in_grid w h c \<Longrightarrow> field_at dm w c = 0 \<Longrightarrow> c = seed"
    and "\<And>c. in_grid w h c \<Longrightarrow> 0 < field_at dm w c \<Longrightarrow>
            open_tile tmap w c
            \<and> (\<exists>q. in_grid w h q \<and> adjacent4 q c \<and> field_at dm w q = field_at dm w c - 1)"
    and "\<And>p c. in_grid w h p \<Longrightarrow> 0 \<le> field_at dm w p \<Longrightarrow> field_at dm w p < cur \<Longrightarrow>
            adjacent4 p c \<Longrightarrow> in_grid w h c \<Longrightarrow> open_tile tmap w c \<Longrightarrow>
                 0 \<le> field_at dm w c \<and> field_at dm w c \<le> field_at dm w p + 1"
  shows "fill_inv tmap w h seed cur dm"
  unfolding fill_inv_def using assms by blast

lemma field_okI:
  assumes "length dm = nat (w * h)"
    and "field_at dm w seed = 0"
    and "\<And>c. in_grid w h c \<Longrightarrow> - 1 \<le> field_at dm w c"
    and "\<And>c. in_grid w h c \<Longrightarrow> field_at dm w c = 0 \<Longrightarrow> c = seed"
    and "\<And>c. in_grid w h c \<Longrightarrow> 0 < field_at dm w c \<Longrightarrow>
            open_tile tmap w c
            \<and> (\<exists>q. in_grid w h q \<and> adjacent4 q c \<and> field_at dm w q = field_at dm w c - 1)"
    and "\<And>p c. in_grid w h p \<Longrightarrow> 0 \<le> field_at dm w p \<Longrightarrow>
            adjacent4 p c \<Longrightarrow> in_grid w h c \<Longrightarrow> open_tile tmap w c \<Longrightarrow>
                 0 \<le> field_at dm w c \<and> field_at dm w c \<le> field_at dm w p + 1"
  shows "field_ok tmap w h seed dm"
  unfolding field_ok_def using assms by blast

lemma field_okD:
  assumes "field_ok tmap w h seed dm"
  shows "length dm = nat (w * h)"
    and "field_at dm w seed = 0"
    and "\<And>c. in_grid w h c \<Longrightarrow> - 1 \<le> field_at dm w c"
    and "\<And>c. in_grid w h c \<Longrightarrow> field_at dm w c = 0 \<Longrightarrow> c = seed"
    and "\<And>c. in_grid w h c \<Longrightarrow> 0 < field_at dm w c \<Longrightarrow>
            open_tile tmap w c
            \<and> (\<exists>q. in_grid w h q \<and> adjacent4 q c \<and> field_at dm w q = field_at dm w c - 1)"
    and "\<And>p c. in_grid w h p \<Longrightarrow> 0 \<le> field_at dm w p \<Longrightarrow>
            adjacent4 p c \<Longrightarrow> in_grid w h c \<Longrightarrow> open_tile tmap w c \<Longrightarrow>
                 0 \<le> field_at dm w c \<and> field_at dm w c \<le> field_at dm w p + 1"
  using assms unfolding field_ok_def by blast+

lemma fill_inv_init:
  assumes "0 < w" "in_grid w h seed"
  shows "fill_inv tmap w h seed 0 ((replicate (nat (w * h)) (- 1))[cell_index w seed := 0])"
proof -
  let ?dm = "(replicate (nat (w * h)) (- 1 :: int))[cell_index w seed := 0]"
  have lt: "cell_index w c < nat (w * h)" if "in_grid w h c" for c
    using cell_index_less [OF assms(1) that] .
  have val: "field_at ?dm w c = (if c = seed then 0 else - 1)" if "in_grid w h c" for c
  proof (cases "c = seed")
    case True
    then show ?thesis using lt [OF assms(2)] by (simp add: field_at_def)
  next
    case False
    then have "cell_index w c \<noteq> cell_index w seed"
      using cell_index_inj [OF that assms(2)] by blast
    then show ?thesis using False lt [OF that] by (simp add: field_at_def)
  qed
  show ?thesis
  proof (rule fill_invI)
    show "length ?dm = nat (w * h)" by simp
    show "field_at ?dm w seed = 0" using val [OF assms(2)] by simp
    show "- 1 \<le> field_at ?dm w c \<and> field_at ?dm w c \<le> 0" if "in_grid w h c" for c
      using val [OF that] by simp
    show "c = seed" if "in_grid w h c" "field_at ?dm w c = 0" for c
      using val [OF that(1)] that(2) by (simp split: if_splits)
    show "open_tile tmap w c
            \<and> (\<exists>q. in_grid w h q \<and> adjacent4 q c \<and> field_at ?dm w q = field_at ?dm w c - 1)"
      if "in_grid w h c" "0 < field_at ?dm w c" for c
      using val [OF that(1)] that(2) by (simp split: if_splits)
    show "0 \<le> field_at ?dm w c \<and> field_at ?dm w c \<le> field_at ?dm w p + 1"
      if "in_grid w h p" "0 \<le> field_at ?dm w p" "field_at ?dm w p < 0" for p c
      using that by simp
  qed
qed

lemma fill_inv_step:
  assumes w: "0 < w" and cur: "0 \<le> cur"
    and inv: "fill_inv tmap w h seed cur dm"
    and g: "grows tmap w h cur dm dm dm'"
    and cl: "\<And>p. in_grid w h p \<Longrightarrow> field_at dm w p = cur \<Longrightarrow> closed_at tmap w h dm' p"
    and seed: "in_grid w h seed"
  shows "fill_inv tmap w h seed (cur + 1) dm'"
proof -
  note d = fill_invD [OF inv]
  have lt: "cell_index w c < length dm" if "in_grid w h c" for c
    using cell_index_less [OF w that] d(1) by simp
  have alt: "field_at dm' w c = field_at dm w c
       \<or> (field_at dm w c = - 1 \<and> field_at dm' w c = cur + 1
           \<and> parent_ok tmap w h cur dm (cell_index w c))" if "in_grid w h c" for c
    using g lt [OF that] unfolding grows_def field_at_def by blast
  have keep: "field_at dm' w c = field_at dm w c" if "in_grid w h c" "field_at dm w c \<noteq> - 1" for c
    using alt [OF that(1)] that(2) by blast
  show ?thesis
  proof (rule fill_invI)
    show "length dm' = nat (w * h)" using g d(1) by (simp add: grows_def)
    show "field_at dm' w seed = 0"
      using keep [OF seed] d(2) by simp
    show "- 1 \<le> field_at dm' w c \<and> field_at dm' w c \<le> cur + 1" if "in_grid w h c" for c
      using alt [OF that] d(3) [OF that] cur by linarith
    show "c = seed" if c: "in_grid w h c" and z: "field_at dm' w c = 0" for c
    proof -
      from alt [OF c] z cur have "field_at dm w c = 0" by linarith
      with d(4) [OF c] show ?thesis by blast
    qed
    show "open_tile tmap w c
        \<and> (\<exists>q. in_grid w h q \<and> adjacent4 q c \<and> field_at dm' w q = field_at dm' w c - 1)"
      if c: "in_grid w h c" and pos: "0 < field_at dm' w c" for c
    proof (cases "field_at dm' w c = field_at dm w c")
      case True
      with pos have "0 < field_at dm w c" by simp
      from d(5) [OF c this] obtain q where o: "open_tile tmap w c"
        and q: "in_grid w h q" "adjacent4 q c" "field_at dm w q = field_at dm w c - 1"
        by blast
      from q pos True have "field_at dm w q \<noteq> - 1" by simp
      from keep [OF q(1) this] q True have "field_at dm' w q = field_at dm' w c - 1" by simp
      with o q show ?thesis by blast
    next
      case False
      with alt [OF c] have new: "field_at dm' w c = cur + 1"
        and po: "parent_ok tmap w h cur dm (cell_index w c)" by blast+
      from po obtain c' q where c': "in_grid w h c'" "cell_index w c' = cell_index w c"
        "open_tile tmap w c'" and q: "in_grid w h q" "adjacent4 q c'" "field_at dm w q = cur"
        unfolding parent_ok_def by blast
      from cell_index_inj [OF c'(1) c c'(2)] have cc: "c' = c" .
      from q cur have "field_at dm w q \<noteq> - 1" by simp
      from keep [OF q(1) this] q new have "field_at dm' w q = field_at dm' w c - 1" by simp
      with q c' cc show ?thesis by blast
    qed
    show "0 \<le> field_at dm' w c \<and> field_at dm' w c \<le> field_at dm' w p + 1"
      if p: "in_grid w h p" "0 \<le> field_at dm' w p" "field_at dm' w p < cur + 1"
        and c: "adjacent4 p c" "in_grid w h c" "open_tile tmap w c" for p c
    proof -
      from alt [OF p(1)] p(2,3) have same: "field_at dm' w p = field_at dm w p" by linarith
      show ?thesis
      proof (cases "field_at dm w p < cur")
        case True
        from d(6) [OF p(1) _ True c] p(2) same
        have b: "0 \<le> field_at dm w c \<and> field_at dm w c \<le> field_at dm w p + 1" by simp
        then have "field_at dm w c \<noteq> - 1" by simp
        from keep [OF c(2) this] b same show ?thesis by simp
      next
        case False
        with p same have lev: "field_at dm w p = cur" by simp
        from cl [OF p(1) lev] c have "field_at dm' w c \<noteq> - 1" unfolding closed_at_def by blast
        moreover have "- 1 \<le> field_at dm' w c \<and> field_at dm' w c \<le> cur + 1"
          using alt [OF c(2)] d(3) [OF c(2)] cur by linarith
        ultimately show ?thesis using same lev by simp
      qed
    qed
  qed
qed

lemma fill_inv_final:
  assumes "fill_inv tmap w h seed (cur + 1) dm" "\<And>c. in_grid w h c \<Longrightarrow> field_at dm w c \<le> cur"
  shows "field_ok tmap w h seed dm"
proof (rule field_okI)
  note d = fill_invD [OF assms(1)]
  show "length dm = nat (w * h)" by (rule d(1))
  show "field_at dm w seed = 0" by (rule d(2))
  show "- 1 \<le> field_at dm w c" if "in_grid w h c" for c using d(3) [OF that] by simp
  show "c = seed" if "in_grid w h c" "field_at dm w c = 0" for c using d(4) [OF that] .
  show "open_tile tmap w c
            \<and> (\<exists>q. in_grid w h q \<and> adjacent4 q c \<and> field_at dm w q = field_at dm w c - 1)"
    if "in_grid w h c" "0 < field_at dm w c" for c using d(5) [OF that] .
  show "0 \<le> field_at dm w c \<and> field_at dm w c \<le> field_at dm w p + 1"
    if p: "in_grid w h p" "0 \<le> field_at dm w p"
      and c: "adjacent4 p c" "in_grid w h c" "open_tile tmap w c" for p c
  proof -
    have "field_at dm w p < cur + 1" using assms(2) [OF p(1)] by simp
    from d(6) [OF p this c] show ?thesis .
  qed
qed


lemma unvisited_decreases:
  assumes g: "grows tmap w h cur dm0 dm dm'"
    and ch: "\<exists>i < length dm. dm ! i = - 1 \<and> dm' ! i \<noteq> - 1"
  shows "card {i. i < length dm' \<and> dm' ! i = - 1} < card {i. i < length dm \<and> dm ! i = - 1}"
proof (rule psubset_card_mono)
  show "finite {i. i < length dm \<and> dm ! i = - 1}" by simp
  from g have len: "length dm' = length dm" by (simp add: grows_def)
  have sub: "{i. i < length dm' \<and> dm' ! i = - 1} \<subseteq> {i. i < length dm \<and> dm ! i = - 1}"
  proof
    fix i assume "i \<in> {i. i < length dm' \<and> dm' ! i = - 1}"
    then have i: "i < length dm" "dm' ! i = - 1" using len by auto
    have "dm ! i = - 1"
    proof (rule ccontr)
      assume "dm ! i \<noteq> - 1"
      from grows_keeps [OF g i(1) this] i(2) this show False by simp
    qed
    with i show "i \<in> {i. i < length dm \<and> dm ! i = - 1}" by simp
  qed
  from ch obtain i where i: "i < length dm" "dm ! i = - 1" "dm' ! i \<noteq> - 1" by blast
  then have "i \<in> {i. i < length dm \<and> dm ! i = - 1}" "i \<notin> {i. i < length dm' \<and> dm' ! i = - 1}"
    by auto
  with sub show "{i. i < length dm' \<and> dm' ! i = - 1} \<subset> {i. i < length dm \<and> dm ! i = - 1}"
    by blast
qed

lemma flood_loop_total:
  assumes ok: "grid_ok tmap w h" and seed: "in_grid w h seed"
  shows "fill_inv tmap w h seed cur dm \<Longrightarrow> 0 \<le> cur \<Longrightarrow>
     \<exists>dm'. flood_loop tmap w h dm cur = Some (Return dm') \<and> field_ok tmap w h seed dm'"
proof (induction "card {i. i < length dm \<and> dm ! i = - 1}" arbitrary: dm cur rule: less_induct)
  case less
  from ok have w: "0 < w" by (simp add: grid_ok_def)
  have len: "length dm = nat (w * h)" using fill_invD(1) [OF less.prems(1)] .
  from sweep_result [OF ok len less.prems(2)] obtain dm' ch where
    sw: "sweep tmap w h cur dm = Return (dm', ch)"
    and g: "grows tmap w h cur dm dm dm'"
    and chT: "ch \<longrightarrow> (\<exists>i < length dm. dm ! i = - 1 \<and> dm' ! i \<noteq> - 1)"
    and chF: "\<not> ch \<longrightarrow> dm' = dm"
    and cl: "\<forall>p. in_grid w h p \<and> field_at dm w p = cur \<longrightarrow> closed_at tmap w h dm' p"
    by blast
  have inv': "fill_inv tmap w h seed (cur + 1) dm'"
    using fill_inv_step [OF w less.prems(2,1) g _ seed] cl by blast
  show ?case
  proof (cases ch)
    case True
    with chT have "card {i. i < length dm' \<and> dm' ! i = - 1} < card {i. i < length dm \<and> dm ! i = - 1}"
      by (intro unvisited_decreases [OF g]) blast
    from less.hyps [OF this inv'] less.prems(2)
    obtain dm'' where "flood_loop tmap w h dm' (cur + 1) = Some (Return dm'')"
      "field_ok tmap w h seed dm''" by auto
    moreover have "flood_loop tmap w h dm cur = flood_loop tmap w h dm' (cur + 1)"
      using True by (subst flood_loop.simps) (simp add: sw)
    ultimately show ?thesis by simp
  next
    case False
    with chF have same: "dm' = dm" by simp
    have "flood_loop tmap w h dm cur = Some (Return dm')"
      using False by (subst flood_loop.simps) (simp add: sw)
    moreover have "field_ok tmap w h seed dm'"
    proof (rule fill_inv_final [OF inv'])
      fix c assume "in_grid w h c"
      from fill_invD(3) [OF less.prems(1) this] same show "field_at dm' w c \<le> cur" by simp
    qed
    ultimately show ?thesis by blast
  qed
qed

lemma distance_field_ok:
  assumes ok: "grid_ok tmap w h" and seed: "in_grid w h (tx, ty)"
  shows "\<exists>dm. distance_field tx ty tmap w h = Some (Return dm) \<and> field_ok tmap w h (tx, ty) dm"
proof -
  from ok have w: "0 < w" by (simp add: grid_ok_def)
  have b: "0 \<le> ty * w + tx" "ty * w + tx < w * h"
    using cell_bounds [OF w seed] by simp_all
  then have rd: "read_at (replicate (nat (w * h)) (- 1 :: int)) (ty * w + tx) = Some (- 1)"
    by (simp add: read_at_def)
  have ci: "nat (ty * w + tx) = cell_index w (tx, ty)" by (simp add: cell_index_def)
  have "distance_field tx ty tmap w h
      = flood_loop tmap w h ((replicate (nat (w * h)) (- 1))[cell_index w (tx, ty) := 0]) 0"
    by (simp add: distance_field_def Let_def rd ci)
  with flood_loop_total [OF ok seed fill_inv_init [OF w seed]] show ?thesis by simp
qed


lemma fill_path_in_grid:
  "fill_path tmap w h cs \<Longrightarrow> c \<in> set cs \<Longrightarrow> in_grid w h c"
  by (induction tmap w h cs rule: fill_path.induct) auto

lemma fill_path_snoc:
  "fill_path tmap w h ps \<Longrightarrow> adjacent4 (last ps) c \<Longrightarrow> open_tile tmap w c \<Longrightarrow> in_grid w h c
     \<Longrightarrow> fill_path tmap w h (ps @ [c])"
  by (induction tmap w h ps rule: fill_path.induct) auto

lemma fill_path_tl:
  "fill_path tmap w h (c # d # cs) \<Longrightarrow> fill_path tmap w h (d # cs)"
  by simp

lemma fill_path_drop:
  "fill_path tmap w h cs \<Longrightarrow> i < length cs \<Longrightarrow> fill_path tmap w h (drop i cs)"
proof (induction i arbitrary: cs)
  case 0
  then show ?case by simp
next
  case (Suc i)
  then obtain c d ds where cs: "cs = c # d # ds"
    by (cases cs; cases "tl cs") auto
  with Suc.prems have "fill_path tmap w h (d # ds)" "i < length (d # ds)" by auto
  from Suc.IH [OF this] cs show ?case by simp
qed

lemma path_upper:
  assumes ok: "field_ok tmap w h seed dm"
  shows "fill_path tmap w h cs \<Longrightarrow> 0 \<le> field_at dm w (hd cs) \<Longrightarrow> i < length cs \<Longrightarrow>
     0 \<le> field_at dm w (cs ! i) \<and> field_at dm w (cs ! i) \<le> field_at dm w (hd cs) + int i"
proof (induction i arbitrary: cs)
  case 0
  then show ?case by (cases cs) auto
next
  case (Suc i)
  then obtain c d ds where cs: "cs = c # d # ds"
    by (cases cs; cases "tl cs") auto
  with Suc.prems have p: "in_grid w h c" "adjacent4 c d" "open_tile tmap w d"
    "fill_path tmap w h (d # ds)" and c0: "0 \<le> field_at dm w c" by auto
  have dg: "in_grid w h d" using fill_path_in_grid [OF p(4)] by simp
  from field_okD(6) [OF ok p(1) c0 p(2) dg p(3)]
  have d0: "0 \<le> field_at dm w d" "field_at dm w d \<le> field_at dm w c + 1" by auto
  from Suc.IH [of "d # ds"] p(4) d0(1) Suc.prems(3) cs
  have "0 \<le> field_at dm w ((d # ds) ! i)
      \<and> field_at dm w ((d # ds) ! i) \<le> field_at dm w d + int i" by simp
  with d0 cs show ?case by simp
qed

lemma path_exists:
  assumes ok: "field_ok tmap w h seed dm" and seed: "in_grid w h seed"
  shows "in_grid w h c \<Longrightarrow> field_at dm w c = int v \<Longrightarrow>
     \<exists>cs. fill_path tmap w h cs \<and> hd cs = seed \<and> last cs = c \<and> length cs = Suc v"
proof (induction v arbitrary: c)
  case 0
  then have "c = seed" using field_okD(4) [OF ok] by simp
  with seed have "fill_path tmap w h [c] \<and> hd [c] = seed \<and> last [c] = c \<and> length [c] = Suc 0"
    by simp
  then show ?case by blast
next
  case (Suc v)
  then have "0 < field_at dm w c" by simp
  from field_okD(5) [OF ok Suc.prems(1) this] obtain q where o: "open_tile tmap w c"
    and q: "in_grid w h q" "adjacent4 q c" "field_at dm w q = field_at dm w c - 1" by blast
  from q(3) Suc.prems(2) have "field_at dm w q = int v" by simp
  from Suc.IH [OF q(1) this] obtain ps where ps: "fill_path tmap w h ps" "hd ps = seed"
    "last ps = q" "length ps = Suc v" by blast
  then have ne: "ps \<noteq> []" by auto
  have "fill_path tmap w h (ps @ [c])"
    using fill_path_snoc [OF ps(1) _ o Suc.prems(1)] q(2) ps(3) by simp
  moreover have "hd (ps @ [c]) = seed" using ne ps(2) by simp
  moreover have "last (ps @ [c]) = c" "length (ps @ [c]) = Suc (Suc v)" using ps(4) by simp_all
  ultimately show ?case by blast
qed

lemma leads_away_values:
  assumes ok: "field_ok tmap w h seed dm" and seed: "in_grid w h seed"
    and la: "leads_away tmap w h seed cs" and i: "i < length cs"
  shows "field_at dm w (cs ! i) = int i"
proof -
  from la have fp: "fill_path tmap w h cs" and hd: "hd cs = seed"
    and mn: "\<And>ds. fill_path tmap w h ds \<Longrightarrow> hd ds = seed \<Longrightarrow> last ds = last cs
               \<Longrightarrow> length cs \<le> length ds"
    unfolding leads_away_def by blast+
  from i have ne: "cs \<noteq> []" by auto
  have h0: "field_at dm w (hd cs) = 0" using hd field_okD(2) [OF ok] by simp
  define n where "n = length cs - 1"
  have n: "n < length cs" "i \<le> n" using i by (simp_all add: n_def)
  have lastn: "last cs = cs ! n" using ne by (simp add: n_def last_conv_nth)
  have up: "0 \<le> field_at dm w (cs ! k) \<and> field_at dm w (cs ! k) \<le> int k" if "k < length cs" for k
    using path_upper [OF ok fp _ that] h0 by simp
  have lg: "in_grid w h (cs ! n)" using fill_path_in_grid [OF fp] n(1) by simp
  obtain v where v: "field_at dm w (cs ! n) = int v"
    using up [OF n(1)] by (metis nonneg_int_cases)
  from path_exists [OF ok seed lg v] obtain ds where ds: "fill_path tmap w h ds" "hd ds = seed"
    "last ds = cs ! n" "length ds = Suc v" by blast
  from mn [OF ds(1,2)] ds(3,4) lastn have "length cs \<le> Suc v" by simp
  then have "int n \<le> int v" by (simp add: n_def)
  with up [OF n(1)] v have fn: "field_at dm w (cs ! n) = int n" by simp
  have dr: "fill_path tmap w h (drop i cs)" by (rule fill_path_drop [OF fp i])
  have hdi: "hd (drop i cs) = cs ! i" using i by (simp add: hd_drop_conv_nth)
  have "field_at dm w (drop i cs ! (n - i)) \<le> field_at dm w (hd (drop i cs)) + int (n - i)"
    using path_upper [OF ok dr, of "n - i"] up [OF i] hdi n by simp
  moreover have "drop i cs ! (n - i) = cs ! n" using n by simp
  ultimately have "int n \<le> field_at dm w (cs ! i) + int (n - i)" using fn hdi by simp
  then have "int i \<le> field_at dm w (cs ! i)" using n(2) by simp
  with up [OF i] show ?thesis by simp
qed

lemma leads_away_sorted:
  assumes "field_ok tmap w h seed dm" "in_grid w h seed" "leads_away tmap w h seed cs"
  shows "sorted (map (field_at dm w) cs)"
  unfolding sorted_iff_nth_mono
  using leads_away_values [OF assms] by simp


text \<open>
  Claim C3. On a map whose buffer holds the grid, seeded at a cell of the grid, the flood
  fill of \<open>MoveWithBreadcrumbs\<close> terminates and its distance map has 0 at the seed. A
  cell with a positive distance is not a wall and got the distance of one of its
  4-neighbours plus one; every 4-neighbour, not a wall, of a cell with a distance has a
  distance, at most one more. Along any path that leads away from the seed (a
  4-connected path from the seed over cells that are not walls, as short as any such path
  to its last cell) the distances are 0, 1, 2, ... in order, so they never decrease.
  Seeded at (4,4) on the open 5 by 5 map, the distance at (0,0) is 8.
\<close>

theorem distance_field_contract:
  "(grid_ok tmap w h \<and> in_grid w h (tx, ty) \<longrightarrow>
     (\<exists>dm. distance_field tx ty tmap w h = Some (Return dm)
        \<and> length dm = nat (w * h)
        \<and> field_at dm w (tx, ty) = 0
        \<and> (\<forall>c. in_grid w h c \<and> 0 < field_at dm w c \<longrightarrow>
              open_tile tmap w c
              \<and> (\<exists>q. in_grid w h q \<and> adjacent4 q c \<and> field_at dm w c = field_at dm w q + 1))
        \<and> (\<forall>p c. in_grid w h p \<and> 0 \<le> field_at dm w p
                \<and> adjacent4 p c \<and> in_grid w h c \<and> open_tile tmap w c \<longrightarrow>
              0 \<le> field_at dm w c \<and> field_at dm w c \<le> field_at dm w p + 1)
        \<and> (\<forall>cs. leads_away tmap w h (tx, ty) cs \<longrightarrow>
              (\<forall>i < length cs. field_at dm w (cs ! i) = int i)
              \<and> sorted (map (field_at dm w) cs))))
   \<and> (\<exists>dm. distance_field 4 4 (open_map 25) 5 5 = Some (Return dm) \<and> field_at dm 5 (0, 0) = 8)"
proof (intro conjI impI)
  assume a: "grid_ok tmap w h \<and> in_grid w h (tx, ty)"
  then have ok: "grid_ok tmap w h" and seed: "in_grid w h (tx, ty)" by simp_all
  from distance_field_ok [OF ok seed] obtain dm where
    df: "distance_field tx ty tmap w h = Some (Return dm)"
    and f: "field_ok tmap w h (tx, ty) dm" by blast
  note d = field_okD [OF f]
  have par: "open_tile tmap w c
      \<and> (\<exists>q. in_grid w h q \<and> adjacent4 q c \<and> field_at dm w c = field_at dm w q + 1)"
    if "in_grid w h c \<and> 0 < field_at dm w c" for c
  proof -
    from d(5) [of c] that obtain q where "open_tile tmap w c" "in_grid w h q" "adjacent4 q c"
      "field_at dm w q = field_at dm w c - 1" by blast
    then show ?thesis by (intro conjI exI [of _ q]) simp_all
  qed
  have nb: "0 \<le> field_at dm w c \<and> field_at dm w c \<le> field_at dm w p + 1"
    if "in_grid w h p \<and> 0 \<le> field_at dm w p
                \<and> adjacent4 p c \<and> in_grid w h c \<and> open_tile tmap w c" for p c
    using d(6) [of p c] that by blast
  have away: "(\<forall>i < length cs. field_at dm w (cs ! i) = int i) \<and> sorted (map (field_at dm w) cs)"
    if "leads_away tmap w h (tx, ty) cs" for cs
    using leads_away_values [OF f seed that] leads_away_sorted [OF f seed that] by blast
  show "\<exists>dm. distance_field tx ty tmap w h = Some (Return dm)
        \<and> length dm = nat (w * h)
        \<and> field_at dm w (tx, ty) = 0
        \<and> (\<forall>c. in_grid w h c \<and> 0 < field_at dm w c \<longrightarrow>
              open_tile tmap w c
              \<and> (\<exists>q. in_grid w h q \<and> adjacent4 q c \<and> field_at dm w c = field_at dm w q + 1))
        \<and> (\<forall>p c. in_grid w h p \<and> 0 \<le> field_at dm w p
                \<and> adjacent4 p c \<and> in_grid w h c \<and> open_tile tmap w c \<longrightarrow>
              0 \<le> field_at dm w c \<and> field_at dm w c \<le> field_at dm w p + 1)
        \<and> (\<forall>cs. leads_away tmap w h (tx, ty) cs \<longrightarrow>
              (\<forall>i < length cs. field_at dm w (cs ! i) = int i)
              \<and> sorted (map (field_at dm w) cs))"
    using df d(1,2) par nb away by (intro exI [of _ dm] conjI allI impI) blast+
next
  have "distance_field 4 4 (open_map 25) 5 5
      = Some (Return [8, 7, 6, 5, 4, 7, 6, 5, 4, 3, 6, 5, 4, 3, 2, 5, 4, 3, 2, 1, 4, 3, 2, 1, 0])"
    by code_simp
  moreover have "field_at [8, 7, 6, 5, 4, 7, 6, 5, 4, 3, 6, 5, 4, 3, 2, 5, 4, 3, 2, 1, 4, 3, 2, 1, 0] 5 (0, 0) = 8"
    by (simp add: field_at_def cell_index_def)
  ultimately show "\<exists>dm. distance_field 4 4 (open_map 25) 5 5 = Some (Return dm) \<and> field_at dm 5 (0, 0) = 8"
    by blast
qed

theorem distance_field_contract_witness:
  "grid_ok ''..#......'' 3 3 \<and> in_grid 3 3 (0, 0)
   \<and> leads_away ''..#......'' 3 3 (0, 0) [(0, 0), (0, 1)]
   \<and> (\<exists>dm. distance_field 0 0 ''..#......'' 3 3 = Some (Return dm)
         \<and> length dm = 9 \<and> field_at dm 3 (0, 0) = 0 \<and> field_at dm 3 (0, 1) = 1
         \<and> sorted (map (field_at dm 3) [(0, 0), (0, 1)]))"
proof -
  have ok: "grid_ok ''..#......'' 3 3" by (simp add: grid_ok_def)
  have seed: "in_grid 3 3 (0, 0)" by (simp add: in_grid_def)
  have la: "leads_away ''..#......'' 3 3 (0, 0) [(0, 0), (0, 1)]"
    unfolding leads_away_def
  proof (intro conjI allI impI)
    show "fill_path ''..#......'' 3 3 [(0, 0), (0, 1)]"
      by (simp add: in_grid_def adjacent4_def open_tile_def read_at_def)
    show "hd [(0 :: int, 0 :: int), (0, 1)] = (0, 0)" by simp
    fix ds
    assume d: "fill_path ''..#......'' 3 3 ds \<and> hd ds = (0, 0) \<and> last ds = last [(0, 0), (0, 1)]"
    show "length [(0 :: int, 0 :: int), (0, 1)] \<le> length ds"
    proof (cases ds)
      case Nil
      with d show ?thesis by simp
    next
      case (Cons c cs)
      with d show ?thesis by (cases cs) auto
    qed
  qed
  from distance_field_contract [of "''..#......''" 3 3 0 0] ok seed
  obtain dm where dm: "distance_field 0 0 ''..#......'' 3 3 = Some (Return dm)"
    "length dm = nat (3 * 3)" "field_at dm 3 (0, 0) = 0"
    and away: "\<forall>cs. leads_away ''..#......'' 3 3 (0, 0) cs \<longrightarrow>
              (\<forall>i < length cs. field_at dm 3 (cs ! i) = int i)
              \<and> sorted (map (field_at dm 3) cs)"
    by blast
  from away la have v: "\<forall>i < length [(0 :: int, 0 :: int), (0, 1)]. field_at dm 3 ([(0, 0), (0, 1)] ! i) = int i"
    and s: "sorted (map (field_at dm 3) [(0, 0), (0, 1)])" by blast+
  from v have "field_at dm 3 ([(0, 0), (0, 1)] ! 1) = int 1" by (intro v [rule_format]) simp
  then have "field_at dm 3 (0, 1) = 1" by simp
  with ok seed la dm s show ?thesis by (intro conjI exI [of _ dm]) simp_all
qed

lemma fold_outcome_fixed:
  "(\<And>a. a \<in> set as \<Longrightarrow> f a s = Return s) \<Longrightarrow> fold_outcome f as s = Return s"
  by (induction as) auto

text \<open>
  Claim C9. On a map whose buffer holds the grid and for a target in the grid,
  \<open>MoveWithBreadcrumbs\<close> returns. When no 4-neighbour of the agent that it may step on
  (inside the grid, not a wall) has a distance recorded in the field, the choice of the
  best move ends where it started, at the agent's own position with \<open>bestDistance\<close> still
  \<open>INT_MAX\<close> (no path), and the agent is returned as it was: its position is unchanged.
\<close>

theorem MoveWithBreadcrumbs_no_path:
  "grid_ok tmap w h \<and> in_grid w h (tx, ty) \<longrightarrow>
     (\<exists>dm. distance_field tx ty tmap w h = Some (Return dm)
        \<and> ((\<forall>c. adjacent4 (Enemy.x e, Enemy.y e) c \<and> in_grid w h c \<and> open_tile tmap w c
                  \<longrightarrow> field_at dm w c < 0)
             \<longrightarrow> best_move tmap w h dm e = Return (Enemy.x e, Enemy.y e, INT_MAX)
                 \<and> MoveWithBreadcrumbs e tx ty tmap w h = Some (Return e)))"
proof (intro impI)
  assume a: "grid_ok tmap w h \<and> in_grid w h (tx, ty)"
  then have ok: "grid_ok tmap w h" and seed: "in_grid w h (tx, ty)" by simp_all
  from ok have w: "0 < w" by (simp add: grid_ok_def)
  from distance_field_ok [OF ok seed] obtain dm where
    df: "distance_field tx ty tmap w h = Some (Return dm)"
    and f: "field_ok tmap w h (tx, ty) dm" by blast
  have len: "length dm = nat (w * h)" by (rule field_okD(1) [OF f])
  have "best_move tmap w h dm e = Return (Enemy.x e, Enemy.y e, INT_MAX)
      \<and> MoveWithBreadcrumbs e tx ty tmap w h = Some (Return e)"
    if none: "\<forall>c. adjacent4 (Enemy.x e, Enemy.y e) c \<and> in_grid w h c \<and> open_tile tmap w c
                  \<longrightarrow> field_at dm w c < 0"
  proof -
    let ?best = "(Enemy.x e, Enemy.y e, INT_MAX)"
    have one: "best_neighbour tmap w h dm e off ?best = Return ?best"
      if off: "off \<in> set neighbour_offsets" for off
    proof -
      let ?c = "(Enemy.x e + fst off, Enemy.y e + snd off)"
      show ?thesis
      proof (cases "in_grid w h ?c")
        case False
        then show ?thesis by (auto simp: best_neighbour_def in_grid_def Let_def)
      next
        case True
        have g: "Enemy.x e + fst off \<ge> 0 \<and> Enemy.x e + fst off < w
            \<and> Enemy.y e + snd off \<ge> 0 \<and> Enemy.y e + snd off < h"
          using True by (auto simp: in_grid_def)
        have rt: "read_at tmap ((Enemy.y e + snd off) * w + (Enemy.x e + fst off)) = Some (tmap ! cell_index w ?c)"
          using read_tile [OF ok True] by simp
        have rf: "read_at dm ((Enemy.y e + snd off) * w + (Enemy.x e + fst off)) = Some (field_at dm w ?c)"
          using read_field [OF w True len] by simp
        have adj: "adjacent4 (Enemy.x e, Enemy.y e) ?c"
          using adjacent4_offset [OF off, of "(Enemy.x e, Enemy.y e)"] by simp
        have neg: "open_tile tmap w ?c \<Longrightarrow> field_at dm w ?c < 0"
          using none adj True by blast
        show ?thesis
          using g open_tile_iff [OF ok True] neg
          by (auto simp: best_neighbour_def Let_def rt rf)
      qed
    qed
    have bm: "best_move tmap w h dm e = Return ?best"
      unfolding best_move_def by (rule fold_outcome_fixed) (rule one)
    then show ?thesis by (simp add: MoveWithBreadcrumbs_def df)
  qed
  with df show "\<exists>dm. distance_field tx ty tmap w h = Some (Return dm)
        \<and> ((\<forall>c. adjacent4 (Enemy.x e, Enemy.y e) c \<and> in_grid w h c \<and> open_tile tmap w c
                  \<longrightarrow> field_at dm w c < 0)
             \<longrightarrow> best_move tmap w h dm e = Return (Enemy.x e, Enemy.y e, INT_MAX)
                 \<and> MoveWithBreadcrumbs e tx ty tmap w h = Some (Return e))"
    by blast
qed

theorem MoveWithBreadcrumbs_no_path_witness:
  "grid_ok ''.#.'' 3 1 \<and> in_grid 3 1 (2, 0)
   \<and> distance_field 2 0 ''.#.'' 3 1 = Some (Return [- 1, - 1, 0])
   \<and> best_move ''.#.'' 3 1 [- 1, - 1, 0] (zombie_at 0 0) = Return (0, 0, INT_MAX)
   \<and> MoveWithBreadcrumbs (zombie_at 0 0) 2 0 ''.#.'' 3 1 = Some (Return (zombie_at 0 0))"
proof -
  have ok: "grid_ok ''.#.'' 3 1" by (simp add: grid_ok_def)
  have seed: "in_grid 3 1 (2, 0)" by (simp add: in_grid_def)
  have df: "distance_field 2 0 ''.#.'' 3 1 = Some (Return [- 1, - 1, 0])" by code_simp
  have pos: "Enemy.x (zombie_at 0 0) = 0" "Enemy.y (zombie_at 0 0) = 0" by (simp_all add: zombie_at_def)
  have none: "\<forall>c. adjacent4 (Enemy.x (zombie_at 0 0), Enemy.y (zombie_at 0 0)) c \<and> in_grid 3 1 c
                 \<and> open_tile ''.#.'' 3 c \<longrightarrow> field_at [- 1, - 1, 0] 3 c < 0"
  proof (intro allI impI)
    fix c :: "int \<times> int"
    assume c: "adjacent4 (Enemy.x (zombie_at 0 0), Enemy.y (zombie_at 0 0)) c \<and> in_grid 3 1 c
                 \<and> open_tile ''.#.'' 3 c"
    then have "snd c = 0" "fst c = 1"
      by (auto simp: pos adjacent4_def in_grid_def)
    then have "c = (1, 0)" by (simp add: prod_eq_iff)
    with c show "field_at [- 1, - 1, 0] 3 c < 0"
      by (simp add: open_tile_def read_at_def)
  qed
  from MoveWithBreadcrumbs_no_path [of "''.#.''" 3 1 2 0 "zombie_at 0 0"] ok seed df none
  have "best_move ''.#.'' 3 1 [- 1, - 1, 0] (zombie_at 0 0) = Return (0, 0, INT_MAX)
      \<and> MoveWithBreadcrumbs (zombie_at 0 0) 2 0 ''.#.'' 3 1 = Some (Return (zombie_at 0 0))"
    by (auto simp: pos)
  with ok seed df show ?thesis by blast
qed

end
